theory Spec2Isabelle
  imports Main "HOL-Library.Char_ord" "HOL-Library.List_Lexorder" "HOL-Library.Sublist"
    "HOL-Library.Word" "HOL-Library.Multiset" "HOL-Library.AList"
begin

section \<open>Strings and paths\<close>

text \<open>
  A Go string is a sequence of bytes, compared bytewise; it is modelled as \<^typ>\<open>string\<close>
  (a list of 8-bit characters) with the lexicographic order of the library.
  \<^verbatim>\<open>strings.HasPrefix(s, p)\<close> is \<^term>\<open>prefix p s\<close>, \<^verbatim>\<open>strings.Contains(s, t)\<close> is
  \<^term>\<open>sublist t s\<close>, \<^verbatim>\<open>s[:n]\<close> is \<^term>\<open>take n s\<close> and \<^verbatim>\<open>s[n]\<close> (read only where
  \<^verbatim>\<open>n < len(s)\<close>) is \<^term>\<open>s ! n\<close>. The path separator is \<^verbatim>\<open>/\<close>.
\<close>

type_synonym importStack = "string list"

type_synonym rune = "32 word"

text \<open>
  \<^verbatim>\<open>hasPathPrefix(s, prefix)\<close>: the \<^verbatim>\<open>switch\<close> tests the equal-length case, then
  the longer case, and falls to \<^verbatim>\<open>default\<close> otherwise.
\<close>

definition hasPathPrefix :: "string \<Rightarrow> string \<Rightarrow> bool" where
  "hasPathPrefix s pfx =
     (if length s = length pfx then s = pfx
      else if length s > length pfx then
        (if pfx \<noteq> [] \<and> pfx ! (length pfx - 1) = CHR ''/'' then prefix pfx s
         else s ! length pfx = CHR ''/'' \<and> take (length pfx) s = pfx)
      else False)"

text \<open>
  \<^verbatim>\<open>isSeen(pkg, seen)\<close> reads only \<^verbatim>\<open>pkg.ImportPath\<close>, which is passed directly.
\<close>

fun isSeen :: "string \<Rightarrow> string list \<Rightarrow> bool" where
  "isSeen importPath [] = False"
| "isSeen importPath (pfx # seen) =
     (if hasPathPrefix importPath pfx then True else isSeen importPath seen)"

text \<open>\<^verbatim>\<open>build.IsLocalImport\<close> of the standard library.\<close>

definition IsLocalImport :: "string \<Rightarrow> bool" where
  "IsLocalImport path =
     (path = ''.'' \<or> path = ''..'' \<or> prefix ''./'' path \<or> prefix ''../'' path)"

text \<open>
  \<^verbatim>\<open>strings.Split(path, ":")\<close> and \<^verbatim>\<open>splitList\<close>.
\<close>

fun strings_Split :: "char \<Rightarrow> string \<Rightarrow> string list" where
  "strings_Split c [] = [[]]"
| "strings_Split c (x # xs) =
     (let r = strings_Split c xs
      in if x = c then [] # r else (x # hd r) # tl r)"

definition splitList :: "string \<Rightarrow> string list" where
  "splitList path = (if path = [] then [] else strings_Split CHR '':'' path)"

text \<open>
  \<^verbatim>\<open>strings.SplitAfter(text, "\n")\<close>: the pieces keep their newline, and the
  last piece is what follows the last newline.
\<close>

fun SplitAfter_newline :: "string \<Rightarrow> string list" where
  "SplitAfter_newline [] = [[]]"
| "SplitAfter_newline (x # xs) =
     (let r = SplitAfter_newline xs
      in if x = CHR 0x0A then [x] # r else (x # hd r) # tl r)"

section \<open>Import stacks\<close>

text \<open>
  \<^verbatim>\<open>importStack.shorterThan\<close>: lengths first; at equal length the first index where
  the two stacks differ decides, by string order.
\<close>

fun shorterThan_ties :: "(string \<times> string) list \<Rightarrow> bool" where
  "shorterThan_ties [] = False"
| "shorterThan_ties ((a, b) # r) = (if a \<noteq> b then a < b else shorterThan_ties r)"

definition shorterThan :: "importStack \<Rightarrow> string list \<Rightarrow> bool" where
  "shorterThan s t =
     (if length s \<noteq> length t then length s < length t else shorterThan_ties (zip s t))"

section \<open>Data model\<close>

record Position =
  Filename :: string
  Offset :: int
  Line :: int
  Column :: int

text \<open>The fields of \<^verbatim>\<open>build.Package\<close> that the program reads or writes.\<close>

record build_Package =
  Dir :: string
  Name :: string
  ImportComment :: string
  ImportPath :: string
  Root :: string
  BinDir :: string
  Goroot :: bool
  GoFiles :: "string list"
  CgoFiles :: "string list"
  IgnoredGoFiles :: "string list"
  CFiles :: "string list"
  CXXFiles :: "string list"
  MFiles :: "string list"
  HFiles :: "string list"
  SFiles :: "string list"
  SysoFiles :: "string list"
  SwigFiles :: "string list"
  SwigCXXFiles :: "string list"
  TestGoFiles :: "string list"
  XTestGoFiles :: "string list"
  Imports :: "string list"
  TestImports :: "string list"
  XTestImports :: "string list"
  ImportPos :: "string \<Rightarrow> Position list"

record PackageError =
  ImportStack :: "string list"
  Pos :: string
  Err :: string
  isImportCycle :: bool
  hard :: bool

text \<open>
  A \<^verbatim>\<open>*Package\<close> is allocated in one place only, \<^verbatim>\<open>loadImport\<close>, which stores it at once
  in \<^verbatim>\<open>packageCache[importPath]\<close>; entries are never removed. A pointer to a package is
  therefore modelled by that cache key, and the cache is the store of all packages:
  reading a field through a pointer is a lookup in the current cache. The embedded
  \<^verbatim>\<open>*build.Package\<close> is the field \<open>build\<close>.
\<close>

type_synonym ref = string

record Package =
  build :: build_Package
  Standard :: bool
  Error :: "PackageError option"
  loadedDeps :: bool
  deps :: "ref list"

type_synonym cache = "ref \<rightharpoonup> Package"

definition deref :: "cache \<Rightarrow> ref \<Rightarrow> Package" where
  "deref \<sigma> r = the (\<sigma> r)"

text \<open>
  The process ends early in two ways: \<^verbatim>\<open>os.Exit(1)\<close>, and a run-time panic.
\<close>

datatype abort = Exit | Panic

text \<open>
  What the program takes from outside: the working directory and environment, the
  file system, and the functions of the standard library whose code is not part of
  the repository. \<open>build_Import path srcDir\<close> is \<^verbatim>\<open>buildContext.Import\<close> (the package and
  the error's text, if any); \<open>stat_IsDir\<close> is \<^verbatim>\<open>os.Stat\<close> followed by \<^verbatim>\<open>IsDir\<close>;
  \<open>utf8_runes\<close> is the sequence of runes a \<^verbatim>\<open>range\<close> over a string yields, \<open>WriteRune\<close> the
  bytes \<^verbatim>\<open>bytes.Buffer.WriteRune\<close> appends; \<open>fmt_q\<close> is the verb \<^verbatim>\<open>%q\<close>.
\<close>

record env =
  cwd :: string
  gobin :: string
  skipVendor :: "(string \<Rightarrow> bool) list"
  build_Import :: "string \<Rightarrow> string \<Rightarrow> build_Package \<times> string option"
  build_ImportDir :: "string \<Rightarrow> build_Package"
  stat_IsDir :: "string \<Rightarrow> bool"
  filepath_Clean :: "string \<Rightarrow> string"
  filepath_Join :: "string \<Rightarrow> string \<Rightarrow> string"
  filepath_Rel :: "string \<Rightarrow> string \<Rightarrow> string option"
  unicode_SimpleFold :: "rune \<Rightarrow> rune"
  utf8_runes :: "string \<Rightarrow> rune list"
  WriteRune :: "rune \<Rightarrow> string"
  fmt_q :: "string \<Rightarrow> string"
  Position_String :: "Position \<Rightarrow> string"

section \<open>Small operations\<close>

text \<open>
  \<^verbatim>\<open>isDir\<close> memoises \<^verbatim>\<open>os.Stat\<close> in \<^verbatim>\<open>isDirCache\<close>; the file system does not change
  during resolution, so the memo table has no effect on the result.
\<close>

definition isDir :: "env \<Rightarrow> string \<Rightarrow> bool" where
  "isDir e path = stat_IsDir e path"

definition inCWD :: "env \<Rightarrow> string \<Rightarrow> bool" where
  "inCWD e path = (path = cwd e \<or> prefix (cwd e @ ''/'') path)"

definition shortPath :: "env \<Rightarrow> string \<Rightarrow> string" where
  "shortPath e path =
     (case filepath_Rel e (cwd e) path of
        Some rel \<Rightarrow> if length rel < length path then rel else path
      | None \<Rightarrow> path)"

definition copyBuild :: "Package \<Rightarrow> build_Package \<Rightarrow> Package" where
  "copyBuild p pp =
     p\<lparr>build := pp,
       Standard := (Goroot pp \<and> ImportPath pp \<noteq> [] \<and> \<not> sublist ''.'' (ImportPath pp))\<rparr>"

text \<open>
  \<^verbatim>\<open>matchPattern\<close> builds a regular expression and returns its matcher; the two
  functions of package \<^verbatim>\<open>regexp\<close> it calls are parameters. \<open>replaceDots\<close> is
  \<^verbatim>\<open>strings.Replace(re, `\.\.\.`, `.*`, -1)\<close>.
\<close>

fun replaceDots :: "string \<Rightarrow> string" where
  "replaceDots (a # b # c # d # f # g # rest) =
     (if [a, b, c, d, f, g] = [CHR 0x5C, CHR ''.'', CHR 0x5C, CHR ''.'', CHR 0x5C, CHR ''.'']
      then ''.*'' @ replaceDots rest
      else a # replaceDots (b # c # d # f # g # rest))"
| "replaceDots s = s"

definition matchPattern ::
  "(string \<Rightarrow> string) \<Rightarrow> (string \<Rightarrow> string \<Rightarrow> bool) \<Rightarrow> string \<Rightarrow> string \<Rightarrow> bool" where
  "matchPattern QuoteMeta MatchString pattern =
     (let re = replaceDots (QuoteMeta pattern);
          re' = (if suffix ''/.*'' re then take (length re - 3) re @ ''(/.*)?'' else re)
      in MatchString (''^'' @ re' @ ''$''))"

definition flagUPats ::
  "(string \<Rightarrow> string) \<Rightarrow> (string \<Rightarrow> string \<Rightarrow> bool) \<Rightarrow> string \<Rightarrow> (string \<Rightarrow> bool) list" where
  "flagUPats QuoteMeta MatchString u = map (matchPattern QuoteMeta MatchString) (splitList u)"

section \<open>Collision detector\<close>

text \<open>
  The inner loop of \<^verbatim>\<open>toFold\<close> follows \<^verbatim>\<open>unicode.SimpleFold\<close> while the rune grows and
  returns the first rune that is not greater than the one before. A rune is a signed
  32-bit integer, so the loop ends whatever \<^verbatim>\<open>SimpleFold\<close> returns.
\<close>

function foldRune :: "(rune \<Rightarrow> rune) \<Rightarrow> rune \<Rightarrow> rune" where
  "foldRune sf r0 = (if sf r0 \<le>s r0 then sf r0 else foldRune sf (sf r0))"
  by pat_completeness auto
termination
proof (relation "measure (\<lambda>(sf, r). nat (2 ^ 31 - sint r))")
  show "wf (measure (\<lambda>(sf, r :: rune). nat (2 ^ 31 - sint r)))" by simp
next
  fix sf :: "rune \<Rightarrow> rune" and r0 :: rune
  assume "\<not> sf r0 \<le>s r0"
  then have "sint r0 < sint (sf r0)" by (simp add: word_sle_eq)
  moreover have "sint (sf r0) < 2 ^ 31" using sint_lt [of "sf r0"] by simp
  ultimately show "((sf, sf r0), (sf, r0)) \<in> measure (\<lambda>(sf, r). nat (2 ^ 31 - sint r))"
    by simp
qed

declare foldRune.simps [simp del]

definition toFold :: "env \<Rightarrow> string \<Rightarrow> string" where
  "toFold e s =
     (if list_all (\<lambda>c. \<not> (of_char c \<ge> (0x80 :: nat) \<or> (CHR ''A'' \<le> c \<and> c \<le> CHR ''Z''))) s
      then s
      else concat (map (\<lambda>r. let r1 = foldRune (unicode_SimpleFold e) r;
                                 r2 = (if 65 \<le>s r1 \<and> r1 \<le>s 90 then r1 + 32 else r1)
                             in WriteRune e r2)
                        (utf8_runes e s)))"

text \<open>
  \<^verbatim>\<open>foldDup\<close>: \<open>clash\<close> is the map from folded names to names; a missing key reads as
  the empty string, and the result \<open>('''', '''')\<close> means that no pair was found.
\<close>

fun foldDup_loop :: "env \<Rightarrow> (string \<rightharpoonup> string) \<Rightarrow> string list \<Rightarrow> string \<times> string" where
  "foldDup_loop e clash [] = ([], [])"
| "foldDup_loop e clash (s # list) =
     (let fold = toFold e s;
          t = (case clash fold of None \<Rightarrow> [] | Some t \<Rightarrow> t)
      in if t \<noteq> [] then (if s > t then (t, s) else (s, t))
         else foldDup_loop e (clash(fold \<mapsto> s)) list)"

definition foldDup :: "env \<Rightarrow> string list \<Rightarrow> string \<times> string" where
  "foldDup e list = foldDup_loop e Map.empty list"

text \<open>\<^verbatim>\<open>stringList\<close> is only called with slices of strings, which it concatenates.\<close>

definition stringList :: "string list list \<Rightarrow> string list" where
  "stringList args = concat args"

section \<open>Vendor path resolver\<close>

text \<open>
  One iteration of the loop of \<^verbatim>\<open>vendoredImportPath\<close> at index \<open>i\<close> of \<open>dir\<close>. It either
  ends the function (\<open>Found\<close>) or goes on with the list of searched directories.
  The slice \<^verbatim>\<open>parent.ImportPath[:len(parent.ImportPath)-chopped]\<close> panics when its
  bound is negative.
\<close>

datatype vstep = Found "abort + string" | Continue "string list"

definition vendorStep ::
  "env \<Rightarrow> Package \<Rightarrow> string \<Rightarrow> string \<Rightarrow> nat \<Rightarrow> string list \<Rightarrow> vstep" where
  "vendorStep e parent path dir i searched =
     (if i < length dir \<and> dir ! i \<noteq> CHR ''/'' then Continue searched
      else if \<not> isDir e (filepath_Join e (take i dir) ''vendor'') then Continue searched
      else
        let vpath = ''vendor/'' @ path;
            targ = filepath_Join e (take i dir) vpath;
            ip = ImportPath (build parent);
            chopped = length dir - i
        in if isDir e targ then
             (if chopped = length ip + 1 then Found (Inr vpath)
              else if length ip < chopped then Found (Inl Panic)
              else Found (Inr (take (length ip - chopped) ip @ ''/'' @ vpath)))
           else Continue (searched @ [targ]))"

text \<open>
  The loop \<^verbatim>\<open>for i := len(dir); i >= len(root); i--\<close>, with \<open>i = lo + k\<close> and \<open>lo\<close> the
  length of \<open>root\<close>.
\<close>

primrec vendorLoop ::
  "env \<Rightarrow> Package \<Rightarrow> string \<Rightarrow> string \<Rightarrow> nat \<Rightarrow> nat \<Rightarrow> string list \<Rightarrow> abort + string \<times> string list"
where
  "vendorLoop e parent path dir lo 0 searched =
     (case vendorStep e parent path dir lo searched of
        Found (Inl a) \<Rightarrow> Inl a
      | Found (Inr found) \<Rightarrow> Inr (found, [])
      | Continue searched' \<Rightarrow> Inr (path, searched'))"
| "vendorLoop e parent path dir lo (Suc k) searched =
     (case vendorStep e parent path dir (lo + Suc k) searched of
        Found (Inl a) \<Rightarrow> Inl a
      | Found (Inr found) \<Rightarrow> Inr (found, [])
      | Continue searched' \<Rightarrow> vendorLoop e parent path dir lo k searched')"

text \<open>
  \<^verbatim>\<open>vendoredImportPath(parent, path)\<close>; \<open>None\<close> is the nil parent. Only \<^verbatim>\<open>Dir\<close>, \<^verbatim>\<open>Root\<close>
  and \<^verbatim>\<open>ImportPath\<close> of the parent are read, and they never change once set.
\<close>

definition vendoredImportPath ::
  "env \<Rightarrow> Package option \<Rightarrow> string \<Rightarrow> abort + string \<times> string list" where
  "vendoredImportPath e parent path =
     (case parent of
        None \<Rightarrow> Inr (path, [])
      | Some par \<Rightarrow>
          if list_ex (\<lambda>match. match path) (skipVendor e) then Inr (path, [])
          else
            let dir = filepath_Clean e (Dir (build par));
                root = filepath_Clean e (Root (build par))
            in if \<not> prefix root dir \<or> length dir \<le> length root \<or> dir ! length root \<noteq> CHR ''/''
               then Inl Exit
               else if \<not> inCWD e dir then Inr (path, [])
               else vendorLoop e par path dir (length root) (length dir - length root) [])"

section \<open>Package cache and graph builder\<close>

text \<open>
  \<^verbatim>\<open>reusePackage(p, stk)\<close>, as a function on the package that \<open>p\<close> points to.
\<close>

definition cycleError :: "importStack \<Rightarrow> PackageError" where
  "cycleError stk =
     \<lparr>ImportStack = stk, Pos = [], Err = ''import cycle not allowed'',
      isImportCycle = True, hard = False\<rparr>"

definition plainError :: "importStack \<Rightarrow> string \<Rightarrow> PackageError" where
  "plainError stk msg =
     \<lparr>ImportStack = stk, Pos = [], Err = msg, isImportCycle = False, hard = False\<rparr>"

definition reusePackage :: "Package \<Rightarrow> importStack \<Rightarrow> Package" where
  "reusePackage p stk =
     (let p1 = (if loadedDeps p \<and> Error p = None then p\<lparr>Error := Some (cycleError stk)\<rparr> else p)
      in case Error p1 of
           None \<Rightarrow> p1
         | Some err \<Rightarrow>
             if \<not> isImportCycle err \<and> shorterThan stk (ImportStack err)
             then p1\<lparr>Error := Some (err\<lparr>ImportStack := stk\<rparr>)\<rparr>
             else p1)"

text \<open>Assignments through the pointer \<open>r\<close>.\<close>

definition setError :: "ref \<Rightarrow> PackageError \<Rightarrow> cache \<Rightarrow> cache" where
  "setError r err \<sigma> = \<sigma>(r \<mapsto> (deref \<sigma> r)\<lparr>Error := Some err\<rparr>)"

definition setImport :: "ref \<Rightarrow> nat \<Rightarrow> string \<Rightarrow> cache \<Rightarrow> cache" where
  "setImport r i path \<sigma> =
     \<sigma>(r \<mapsto> (deref \<sigma> r)\<lparr>build := (build (deref \<sigma> r))\<lparr>Imports := (Imports (build (deref \<sigma> r)))[i := path]\<rparr>\<rparr>)"

definition withPos :: "env \<Rightarrow> Position list \<Rightarrow> PackageError \<Rightarrow> PackageError" where
  "withPos e pos err = (case pos of [] \<Rightarrow> err | p0 # _ \<Rightarrow> err\<lparr>Pos := Position_String e p0\<rparr>)"

text \<open>
  The functions \<^verbatim>\<open>loadImport\<close> and \<^verbatim>\<open>loadDeps\<close> call each other. \<open>loadDeps\<close> is written
  over the loader \<open>ld\<close> it calls for each import; \<open>loadImport\<close> below passes itself.
  The result of a loader is \<open>None\<close> when the recursion budget is used up, \<open>Some (Inl a)\<close>
  when the process ends early, and otherwise the returned pointer and the cache.
  The import stack is pushed on entry to \<^verbatim>\<open>loadImport\<close> and popped by a \<^verbatim>\<open>defer\<close>, so
  each call sees its caller's stack: it is passed by value, and \<open>stk @ [path]\<close> is the
  stack after the push.
\<close>

type_synonym loader =
  "string \<Rightarrow> string \<Rightarrow> Package option \<Rightarrow> importStack \<Rightarrow> Position list \<Rightarrow> cache
     \<Rightarrow> (abort + ref \<times> cache) option"

text \<open>
  The body of the loop over \<^verbatim>\<open>importPaths\<close> in \<^verbatim>\<open>loadDeps\<close>, after the call of
  \<^verbatim>\<open>loadImport\<close> has returned the package \<open>p1\<close> at \<open>r1\<close>. \<open>recordImport\<close> is what it
  writes to \<open>p\<close>: the error for an import that is a program, and the resolved path in
  \<^verbatim>\<open>p.Imports[i]\<close>. \<open>mergeDeps\<close> is what it adds to the local map \<^verbatim>\<open>deps\<close>, from import
  paths to packages: nothing for a standard package, else \<open>p1\<close> and the entries of
  \<^verbatim>\<open>p1.deps\<close>.
\<close>

definition recordImport ::
  "env \<Rightarrow> ref \<Rightarrow> Package \<Rightarrow> importStack \<Rightarrow> nat \<Rightarrow> string \<Rightarrow> ref \<Rightarrow> cache \<Rightarrow> cache" where
  "recordImport e r p stk i path r1 \<sigma>1 =
     (let p1 = deref \<sigma>1 r1;
          \<sigma>2 = (if Name (build p1) = ''main''
                then setError r
                       (withPos e (ImportPos (build p) path)
                          (plainError stk
                             (''import '' @ fmt_q e path @ '' is a program, not an importable package'')))
                       \<sigma>1
                else \<sigma>1);
          path1 = ImportPath (build p1)
      in if i < length (Imports (build p)) then setImport r i path1 \<sigma>2 else \<sigma>2)"

definition mergeDeps :: "cache \<Rightarrow> ref \<Rightarrow> (string \<times> ref) list \<Rightarrow> (string \<times> ref) list" where
  "mergeDeps \<sigma> r1 dps =
     (let p1 = deref \<sigma> r1
      in if Standard p1 then dps
         else foldl (\<lambda>d dep. AList.update (ImportPath (build (deref \<sigma> dep))) dep d)
                (AList.update (ImportPath (build p1)) r1 dps) (deps p1))"

text \<open>
  The loop itself, over the remaining pairs of index and path. \<open>p\<close> is the package at
  \<open>r\<close> as it was on entry: the loop reads from it only \<^verbatim>\<open>Dir\<close>, \<^verbatim>\<open>ImportPos\<close> and the
  length of \<^verbatim>\<open>Imports\<close>, which do not change. The result \<open>None\<close> in the first component
  is the \<^verbatim>\<open>return\<close> inside the loop.
\<close>

fun loadDeps_loop ::
  "env \<Rightarrow> loader \<Rightarrow> ref \<Rightarrow> Package \<Rightarrow> importStack \<Rightarrow> (nat \<times> string) list
     \<Rightarrow> (string \<times> ref) list \<Rightarrow> cache
     \<Rightarrow> (abort + (string \<times> ref) list option \<times> cache) option" where
  "loadDeps_loop e ld r p stk [] dps \<sigma> = Some (Inr (Some dps, \<sigma>))"
| "loadDeps_loop e ld r p stk ((i, path) # rest) dps \<sigma> =
     (if path = ''C'' then loadDeps_loop e ld r p stk rest dps \<sigma>
      else if IsLocalImport path then
        Some (Inr (None,
          setError r
            (withPos e (ImportPos (build p) path)
               (plainError stk (''local import '' @ fmt_q e path @ '' in non-local package'')))
            \<sigma>))
      else
        (case ld path (Dir (build p)) (Some p) stk (ImportPos (build p) path) \<sigma> of
           None \<Rightarrow> None
         | Some (Inl a) \<Rightarrow> Some (Inl a)
         | Some (Inr (r1, \<sigma>1)) \<Rightarrow>
             loadDeps_loop e ld r p stk rest
               (mergeDeps (recordImport e r p stk i path r1 \<sigma>1) r1 dps)
               (recordImport e r p stk i path r1 \<sigma>1)))"

text \<open>
  The file names that \<^verbatim>\<open>loadDeps\<close> hands to \<^verbatim>\<open>foldDup\<close>, and the combined import list.
\<close>

definition sourceFiles :: "build_Package \<Rightarrow> string list" where
  "sourceFiles bp =
     stringList [GoFiles bp, CgoFiles bp, IgnoredGoFiles bp, CFiles bp, CXXFiles bp,
                 MFiles bp, HFiles bp, SFiles bp, SysoFiles bp, SwigFiles bp,
                 SwigCXXFiles bp, TestGoFiles bp, XTestGoFiles bp]"

definition importPaths :: "build_Package \<Rightarrow> string list" where
  "importPaths bp = Imports bp @ TestImports bp @ XTestImports bp"

text \<open>
  The part of \<^verbatim>\<open>loadDeps\<close> after the loop. The keys of \<^verbatim>\<open>deps\<close> are sorted and each is
  looked up again; a key of the map always has its value, so the \<^verbatim>\<open>panic\<close> of that
  lookup cannot happen and the sorted entries are taken directly.
\<close>

definition loadDeps_finish ::
  "env \<Rightarrow> ref \<Rightarrow> importStack \<Rightarrow> (string \<times> ref) list \<Rightarrow> cache \<Rightarrow> cache" where
  "loadDeps_finish e r stk dps \<sigma>1 =
     (let \<sigma>2 = \<sigma>1(r \<mapsto> (deref \<sigma>1 r)\<lparr>loadedDeps := True\<rparr>);
          sorted_dps = sort_key fst dps;
          depPaths = map fst sorted_dps;
          \<sigma>3 = \<sigma>2(r \<mapsto> (deref \<sigma>2 r)\<lparr>deps := deps (deref \<sigma>2 r) @ map snd sorted_dps\<rparr>);
          depErrors = List.map_filter (\<lambda>p1. Error (deref \<sigma>3 p1)) (map snd sorted_dps);
          (dep1, dep2) = foldDup e depPaths
      in if depErrors = [] \<and> dep1 \<noteq> [] then
           setError r
             (plainError stk (''case-insensitive import collision: '' @ fmt_q e dep1
                              @ '' and '' @ fmt_q e dep2)) \<sigma>3
         else \<sigma>3)"

text \<open>\<^verbatim>\<open>loadDeps(p, stk, err)\<close>, for the package \<open>p\<close> at \<open>r\<close>.\<close>

definition loadDeps ::
  "env \<Rightarrow> loader \<Rightarrow> ref \<Rightarrow> Package \<Rightarrow> importStack \<Rightarrow> string option \<Rightarrow> cache
     \<Rightarrow> (abort + cache) option" where
  "loadDeps e ld r p stk err \<sigma> =
     (case err of
        Some msg \<Rightarrow> Some (Inr (setError r (plainError stk msg) \<sigma>))
      | None \<Rightarrow>
          let (f1, f2) = foldDup e (sourceFiles (build p))
          in if f1 \<noteq> [] then
               Some (Inr (setError r
                 (plainError stk (''case-insensitive file name collision: '' @ fmt_q e f1
                                  @ '' and '' @ fmt_q e f2)) \<sigma>))
             else
               (case loadDeps_loop e ld r p stk (enumerate 0 (importPaths (build p))) [] \<sigma> of
                  None \<Rightarrow> None
                | Some (Inl a) \<Rightarrow> Some (Inl a)
                | Some (Inr (None, \<sigma>1)) \<Rightarrow> Some (Inr \<sigma>1)
                | Some (Inr (Some dps, \<sigma>1)) \<Rightarrow> Some (Inr (loadDeps_finish e r stk dps \<sigma>1))))"

text \<open>
  The rewriting of a "cannot find package" error in \<^verbatim>\<open>loadImport\<close>, which adds the
  vendor directories that were searched.
\<close>

definition addVendorSearch :: "string list \<Rightarrow> string \<Rightarrow> string" where
  "addVendorSearch vendorSearch txt =
     (if sublist (''cannot find package '' @ [CHR 0x22]) txt
         \<and> sublist ([CHR 0x22] @ '' in any of:'' @ [CHR 0x0A, CHR 0x09]) txt
      then
        let old = SplitAfter_newline txt
        in concat ([hd old]
                   @ map (\<lambda>dir. [CHR 0x09] @ dir @ '' (vendor tree)'' @ [CHR 0x0A]) vendorSearch
                   @ tl old)
      else txt)"

definition newPackage :: "build_Package \<Rightarrow> Package" where
  "newPackage bp =
     copyBuild \<lparr>build = bp, Standard = False, Error = None, loadedDeps = False, deps = []\<rparr> bp"

text \<open>
  The part of \<^verbatim>\<open>loadImport\<close> from the call of \<^verbatim>\<open>buildContext.Import\<close> to
  \<^verbatim>\<open>p.copyBuild(bp)\<close>: the new package and the error to hand to \<^verbatim>\<open>loadDeps\<close>.
\<close>

definition importPackage :: "env \<Rightarrow> string \<Rightarrow> string list \<Rightarrow> string \<Rightarrow> Package \<times> string option" where
  "importPackage e importPath vendorSearch srcDir =
     (let (bp0, err0) = build_Import e importPath srcDir;
          err1 = (case err0 of
                    None \<Rightarrow> None
                  | Some txt \<Rightarrow>
                      if vendorSearch \<noteq> [] then Some (addVendorSearch vendorSearch txt)
                      else Some txt);
          bp1 = bp0\<lparr>ImportPath := importPath\<rparr>;
          bp = (if gobin e \<noteq> [] then bp1\<lparr>BinDir := gobin e\<rparr> else bp1);
          err = (if err1 = None \<and> ImportComment bp \<noteq> [] \<and> ImportComment bp \<noteq> importPath
                    \<and> \<not> sublist ''/vendor/'' importPath
                 then Some (''code in directory '' @ Dir bp @ '' expects import ''
                            @ fmt_q e (ImportComment bp))
                 else err1)
      in (newPackage bp, err))"

text \<open>The end of \<^verbatim>\<open>loadImport\<close>: the position of the import goes into the error.\<close>

definition setPos :: "env \<Rightarrow> ref \<Rightarrow> Position list \<Rightarrow> cache \<Rightarrow> cache" where
  "setPos e r importPos \<sigma> =
     (case (Error (deref \<sigma> r), importPos) of
        (Some perr, pos # _) \<Rightarrow>
          setError r
            (perr\<lparr>Pos := Position_String e (pos\<lparr>Filename := shortPath e (Filename pos)\<rparr>)\<rparr>) \<sigma>
      | _ \<Rightarrow> \<sigma>)"

text \<open>
  \<^verbatim>\<open>loadImport(path, srcDir, parent, stk, importPos)\<close>. The first argument bounds the
  depth of the recursion. The new package is entered in the cache before
  \<^verbatim>\<open>buildContext.Import\<close> is called and filled in by \<^verbatim>\<open>copyBuild\<close> right after it;
  nothing reads the cache in between, so the model enters the filled package.
\<close>

primrec loadImport :: "nat \<Rightarrow> env \<Rightarrow> loader" where
  "loadImport 0 e = (\<lambda>path srcDir parent stk importPos \<sigma>. None)"
| "loadImport (Suc n) e = (\<lambda>path srcDir parent stk importPos \<sigma>.
     case vendoredImportPath e parent path of
       Inl a \<Rightarrow> Some (Inl a)
     | Inr (importPath, vendorSearch) \<Rightarrow>
         (case \<sigma> importPath of
            Some p \<Rightarrow> Some (Inr (importPath, \<sigma>(importPath \<mapsto> reusePackage p (stk @ [path]))))
          | None \<Rightarrow>
              (case importPackage e importPath vendorSearch srcDir of
                 (p, err) \<Rightarrow>
                   if Standard p then Some (Inr (importPath, \<sigma>(importPath \<mapsto> p)))
                   else
                     (case loadDeps e (loadImport n e) importPath p (stk @ [path]) err
                             (\<sigma>(importPath \<mapsto> p)) of
                        None \<Rightarrow> None
                      | Some (Inl a) \<Rightarrow> Some (Inl a)
                      | Some (Inr \<sigma>2) \<Rightarrow> Some (Inr (importPath, setPos e importPath importPos \<sigma>2))))))"

definition loadPackage :: "nat \<Rightarrow> env \<Rightarrow> string \<Rightarrow> importStack \<Rightarrow> cache \<Rightarrow> (abort + ref \<times> cache) option" where
  "loadPackage n e arg stk \<sigma> =
     (let arg1 =
        (if IsLocalImport arg then
           (let bp = build_ImportDir e (filepath_Join e (cwd e) arg)
            in if ImportPath bp \<noteq> [] \<and> ImportPath bp \<noteq> ''.'' then ImportPath bp else arg)
         else arg)
      in loadImport n e arg1 (cwd e) None stk [] \<sigma>)"

text \<open>
  \<^verbatim>\<open>packages(args)\<close>: \<open>seen\<close> is the local \<^verbatim>\<open>set\<close> of arguments already loaded, \<open>pkgs\<close>
  the result so far.
\<close>

fun packages_loop ::
  "nat \<Rightarrow> env \<Rightarrow> string list \<Rightarrow> string list \<Rightarrow> ref list \<Rightarrow> cache \<Rightarrow> (abort + ref list \<times> cache) option" where
  "packages_loop n e [] seen pkgs \<sigma> = Some (Inr (pkgs, \<sigma>))"
| "packages_loop n e (arg # args) seen pkgs \<sigma> =
     (if arg \<in> set seen then packages_loop n e args seen pkgs \<sigma>
      else
        (case loadPackage n e arg [] \<sigma> of
           None \<Rightarrow> None
         | Some (Inl a) \<Rightarrow> Some (Inl a)
         | Some (Inr (r, \<sigma>1)) \<Rightarrow> packages_loop n e args (arg # seen) (pkgs @ [r]) \<sigma>1))"

definition packages :: "nat \<Rightarrow> env \<Rightarrow> string list \<Rightarrow> cache \<Rightarrow> (abort + ref list \<times> cache) option" where
  "packages n e args \<sigma> = packages_loop n e args [] [] \<sigma>"

section \<open>Dependency aggregator and copier\<close>

text \<open>
  \<^verbatim>\<open>dependencies(packages)\<close>. \<^verbatim>\<open>sort.Sort\<close> is not stable, but two entries with the same
  import path are the same pointer, so every sort gives the list of the stable one.
\<close>

definition dependencies :: "env \<Rightarrow> cache \<Rightarrow> ref list \<Rightarrow> ref list" where
  "dependencies e \<sigma> pkgs =
     sort_key (\<lambda>d. ImportPath (build (deref \<sigma> d)))
       (filter (\<lambda>d. \<not> inCWD e (Dir (build (deref \<sigma> d))))
          (concat (map (\<lambda>p. deps (deref \<sigma> p)) pkgs)))"

text \<open>
  From \<^verbatim>\<open>main\<close>: whether the run goes on to copy, and the packages that the copy
  loop hands to \<^verbatim>\<open>copyDep\<close>.
\<close>

definition main_ok :: "cache \<Rightarrow> ref list \<Rightarrow> ref list \<Rightarrow> bool" where
  "main_ok \<sigma> roots ds =
     list_all (\<lambda>pkg. Error (deref \<sigma> pkg) = None \<and> \<not> Standard (deref \<sigma> pkg)) (roots @ ds)"

fun copyLoop :: "cache \<Rightarrow> ref list \<Rightarrow> string list \<Rightarrow> ref list" where
  "copyLoop \<sigma> [] seen = []"
| "copyLoop \<sigma> (pkg # rest) seen =
     (if isSeen (ImportPath (build (deref \<sigma> pkg))) seen then copyLoop \<sigma> rest seen
      else pkg # copyLoop \<sigma> rest (seen @ [ImportPath (build (deref \<sigma> pkg))]))"

section \<open>Notions used to state the properties\<close>

text \<open>
  The cleaned directory and root of a parent package, and the condition under which
  \<^verbatim>\<open>vendoredImportPath\<close> does not exit: the directory lies strictly below the root.
\<close>

definition parentDir :: "env \<Rightarrow> Package \<Rightarrow> string" where
  "parentDir e par = filepath_Clean e (Dir (build par))"

definition parentRoot :: "env \<Rightarrow> Package \<Rightarrow> string" where
  "parentRoot e par = filepath_Clean e (Root (build par))"

definition dirBelowRoot :: "env \<Rightarrow> Package \<Rightarrow> bool" where
  "dirBelowRoot e par =
     (prefix (parentRoot e par) (parentDir e par)
      \<and> length (parentRoot e par) < length (parentDir e par)
      \<and> parentDir e par ! length (parentRoot e par) = CHR ''/'')"

text \<open>
  Index \<open>i\<close> is a path-segment boundary of \<open>dir\<close>: its end, or the position of a
  separator. The directory \<open>dir[:i]\<close> has a vendor directory; it holds a vendored
  copy of \<open>path\<close>.
\<close>

definition boundary :: "string \<Rightarrow> nat \<Rightarrow> bool" where
  "boundary dir i = (i = length dir \<or> (i < length dir \<and> dir ! i = CHR ''/''))"

definition hasVendorDir :: "env \<Rightarrow> string \<Rightarrow> nat \<Rightarrow> bool" where
  "hasVendorDir e dir i = (boundary dir i \<and> isDir e (filepath_Join e (take i dir) ''vendor''))"

definition vendorAt :: "env \<Rightarrow> string \<Rightarrow> string \<Rightarrow> nat \<Rightarrow> bool" where
  "vendorAt e dir path i =
     (hasVendorDir e dir i \<and> isDir e (filepath_Join e (take i dir) (''vendor/'' @ path)))"

text \<open>
  The import path of the vendored copy found after chopping \<open>chopped\<close> bytes off the
  parent's directory.
\<close>

definition expandedPath :: "string \<Rightarrow> nat \<Rightarrow> string \<Rightarrow> string" where
  "expandedPath ip chopped path =
     (if chopped = length ip + 1 then ''vendor/'' @ path
      else take (length ip - chopped) ip @ ''/vendor/'' @ path)"

text \<open>
  A package \<open>p'\<close> is \<open>p\<close> after some re-encounters. One cache extends another when every
  package of the first is still there and has only been re-encountered; \<open>frameExcept r\<close>
  says so for the packages other than the one at \<open>r\<close>.
\<close>

definition reused :: "Package \<Rightarrow> Package \<Rightarrow> bool" where
  "reused p p' = (\<exists>stks. p' = foldl reusePackage p stks)"

definition frame :: "cache \<Rightarrow> cache \<Rightarrow> bool" where
  "frame \<sigma> \<sigma>' = (\<forall>k p. \<sigma> k = Some p \<longrightarrow> (\<exists>p'. \<sigma>' k = Some p' \<and> reused p p'))"

definition frameExcept :: "ref \<Rightarrow> cache \<Rightarrow> cache \<Rightarrow> bool" where
  "frameExcept r \<sigma> \<sigma>' = (\<forall>k p. k \<noteq> r \<and> \<sigma> k = Some p \<longrightarrow> (\<exists>p'. \<sigma>' k = Some p' \<and> reused p p'))"

text \<open>
  A package without an import-cycle error; a package in the state in which
  \<^verbatim>\<open>loadDeps\<close> works on it; two states of one package.
\<close>

definition noCycleError :: "Package \<Rightarrow> bool" where
  "noCycleError p = (case Error p of None \<Rightarrow> True | Some err \<Rightarrow> \<not> isImportCycle err)"

definition loading :: "Package \<Rightarrow> bool" where
  "loading p = (\<not> Standard p \<and> \<not> loadedDeps p \<and> deps p = [] \<and> noCycleError p)"

definition sameIdentity :: "Package \<Rightarrow> Package \<Rightarrow> bool" where
  "sameIdentity p p' =
     (Standard p' = Standard p \<and> Goroot (build p') = Goroot (build p)
      \<and> ImportPath (build p') = ImportPath (build p) \<and> Dir (build p') = Dir (build p))"

text \<open>
  The standard-library flag of a package is what \<^verbatim>\<open>copyBuild\<close> computes from the
  package as it is now. A cached package is well formed when its import path is its
  cache key, its flag is right, and, if it is flagged, it has no dependencies, is not
  marked loaded and has no error.
\<close>

definition stdFlagRight :: "Package \<Rightarrow> bool" where
  "stdFlagRight p \<longleftrightarrow>
     Standard p = (Goroot (build p) \<and> ImportPath (build p) \<noteq> []
                   \<and> \<not> sublist ''.'' (ImportPath (build p)))"

definition wellFormed :: "ref \<Rightarrow> Package \<Rightarrow> bool" where
  "wellFormed k p \<longleftrightarrow>
     ImportPath (build p) = k \<and> stdFlagRight p
     \<and> (Standard p \<longrightarrow> deps p = [] \<and> \<not> loadedDeps p \<and> Error p = None)"

definition cacheInv :: "cache \<Rightarrow> bool" where
  "cacheInv \<sigma> = (\<forall>k p. \<sigma> k = Some p \<longrightarrow> wellFormed k p)"

text \<open>
  What \<^verbatim>\<open>loadDeps\<close> relies on in the loader it calls: when the loader returns, the
  cache extends the one it started from and is well formed if that one was, and the
  returned package is the cached package of the import's effective path.
\<close>

definition loaderOK :: "env \<Rightarrow> loader \<Rightarrow> bool" where
  "loaderOK e ld =
     (\<forall>path srcDir parent stk pos \<sigma> r1 \<sigma>1.
        ld path srcDir parent stk pos \<sigma> = Some (Inr (r1, \<sigma>1)) \<longrightarrow>
          frame \<sigma> \<sigma>1 \<and> r1 \<in> dom \<sigma>1 \<and> (cacheInv \<sigma> \<longrightarrow> cacheInv \<sigma>1)
          \<and> (\<exists>vs. vendoredImportPath e parent path = Inr (r1, vs)))"

text \<open>One loader returns whatever another one returns.\<close>

definition extends :: "loader \<Rightarrow> loader \<Rightarrow> bool" where
  "extends ld ld' =
     (\<forall>path srcDir parent stk pos \<sigma> y.
        ld path srcDir parent stk pos \<sigma> = Some y \<longrightarrow> ld' path srcDir parent stk pos \<sigma> = Some y)"

section \<open>An example environment\<close>

text \<open>
  The examples run in a small workspace \<^verbatim>\<open>/g\<close>. Its paths are already clean and its
  names are ASCII, and on such arguments the functions below agree with the library:
  \<^verbatim>\<open>filepath.Clean\<close> returns a clean path unchanged and \<^verbatim>\<open>"."\<close> for the empty path,
  \<^verbatim>\<open>filepath.Join\<close> puts a separator between two non-empty clean paths, a \<^verbatim>\<open>range\<close>
  over an ASCII string yields its bytes, and \<^verbatim>\<open>unicode.SimpleFold\<close> maps an ASCII
  letter to its other case (with the orbits of \<^verbatim>\<open>k\<close> and \<^verbatim>\<open>s\<close> through U+212A and
  U+017F). The examples carry no source positions, so \<^verbatim>\<open>filepath.Rel\<close> and
  \<^verbatim>\<open>Position.String\<close> are never called.
\<close>

definition exClean :: "string \<Rightarrow> string" where
  "exClean s = (if s = [] then ''.'' else s)"

definition exJoin :: "string \<Rightarrow> string \<Rightarrow> string" where
  "exJoin a b = (if a = [] then b else if b = [] then a else a @ ''/'' @ b)"

definition exSimpleFold :: "rune \<Rightarrow> rune" where
  "exSimpleFold r =
     (if r = 0x6B then 0x212A else if r = 0x212A then 0x4B
      else if r = 0x73 then 0x17F else if r = 0x17F then 0x53
      else if 65 \<le>s r \<and> r \<le>s 90 then r + 32
      else if 97 \<le>s r \<and> r \<le>s 122 then r - 32
      else r)"

definition exRunes :: "string \<Rightarrow> rune list" where
  "exRunes s = map (\<lambda>c. of_nat (of_char c)) s"

definition exWriteRune :: "rune \<Rightarrow> string" where
  "exWriteRune r = [char_of (unat r)]"

definition exQuote :: "string \<Rightarrow> string" where
  "exQuote s = [CHR 0x22] @ s @ [CHR 0x22]"

definition emptyBP :: build_Package where
  "emptyBP =
     \<lparr>Dir = [], Name = [], ImportComment = [], ImportPath = [], Root = [], BinDir = [],
      Goroot = False, GoFiles = [], CgoFiles = [], IgnoredGoFiles = [], CFiles = [],
      CXXFiles = [], MFiles = [], HFiles = [], SFiles = [], SysoFiles = [], SwigFiles = [],
      SwigCXXFiles = [], TestGoFiles = [], XTestGoFiles = [], Imports = [],
      TestImports = [], XTestImports = [], ImportPos = (\<lambda>path. [])\<rparr>"

text \<open>
  A package of the workspace: \<open>exPkg path name files imports\<close> lives in
  \<^verbatim>\<open>/g/src/<path>\<close>.
\<close>

definition exPkg :: "string \<Rightarrow> string \<Rightarrow> string list \<Rightarrow> string list \<Rightarrow> build_Package" where
  "exPkg path name files imports =
     emptyBP\<lparr>Dir := ''/g/src/'' @ path, Name := name, ImportPath := path, Root := ''/g'',
             GoFiles := files, Imports := imports\<rparr>"

text \<open>
  \<^verbatim>\<open>buildContext.Import\<close> over a table of packages; a path outside the table is not
  found.
\<close>

definition exImport :: "(string \<times> build_Package) list \<Rightarrow> string \<Rightarrow> string \<Rightarrow> build_Package \<times> string option" where
  "exImport tab path srcDir =
     (case map_of tab path of
        Some bp \<Rightarrow> (bp, None)
      | None \<Rightarrow>
          (emptyBP\<lparr>ImportPath := path\<rparr>,
           Some (''cannot find package '' @ exQuote path @ '' in any of:'' @ [CHR 0x0A, CHR 0x09]
                 @ ''/g/src/'' @ path @ '' (from $GOPATH)'')))"

definition exEnv ::
  "string \<Rightarrow> (string \<Rightarrow> bool) list \<Rightarrow> string list \<Rightarrow> (string \<times> build_Package) list \<Rightarrow> env" where
  "exEnv wd skips dirs tab =
     \<lparr>cwd = wd, gobin = [], skipVendor = skips,
      build_Import = exImport tab,
      build_ImportDir = (\<lambda>dir. emptyBP),
      stat_IsDir = (\<lambda>path. path \<in> set dirs),
      filepath_Clean = exClean, filepath_Join = exJoin,
      filepath_Rel = (\<lambda>base targ. None),
      unicode_SimpleFold = exSimpleFold, utf8_runes = exRunes, WriteRune = exWriteRune,
      fmt_q = exQuote, Position_String = Filename\<rparr>"

text \<open>
  What an example shows of a run: the roots returned and, for the given import paths,
  the error, the loaded flag and the dependency list of the cached package.
\<close>

definition observe ::
  "string list \<Rightarrow> (abort + ref list \<times> cache) option
     \<Rightarrow> (abort + ref list \<times> (PackageError option \<times> bool \<times> ref list) option list) option" where
  "observe ks res =
     map_option (map_sum id
       (\<lambda>(rs, \<sigma>). (rs, map (\<lambda>k. map_option (\<lambda>p. (Error p, loadedDeps p, deps p)) (\<sigma> k)) ks)))
       res"

text \<open>The working directory is \<^verbatim>\<open>/g/src/p\<close>; \<open>p\<close> imports \<open>q\<close> and \<open>q\<close> imports \<open>p\<close>.\<close>

definition cycleEnv :: env where
  "cycleEnv = exEnv ''/g/src/p'' [] []
     [(''p'', exPkg ''p'' ''p'' [''p.go''] [''q'']),
      (''q'', exPkg ''q'' ''q'' [''q.go''] [''p''])]"

text \<open>\<open>p\<close> imports \<open>a\<close> and \<open>b\<close>, which both import \<open>d\<close>.\<close>

definition diamondEnv :: env where
  "diamondEnv = exEnv ''/g/src/p'' [] []
     [(''p'', exPkg ''p'' ''p'' [''p.go''] [''a'', ''b'']),
      (''a'', exPkg ''a'' ''a'' [''a.go''] [''d'']),
      (''b'', exPkg ''b'' ''b'' [''b.go''] [''d'']),
      (''d'', exPkg ''d'' ''d'' [''d.go''] [])]"

text \<open>A package \<open>d\<close> that carries the error \<open>err\<close>.\<close>

definition exFailed :: "PackageError \<Rightarrow> Package" where
  "exFailed err = (newPackage (exPkg ''d'' ''d'' [''d.go''] []))\<lparr>Error := Some err\<rparr>"

text \<open>The cache and the roots that a run returns (nothing if the run ends early).\<close>

definition cacheOf :: "(abort + ref list \<times> cache) option \<Rightarrow> cache" where
  "cacheOf res = (case res of Some (Inr (rs, \<sigma>)) \<Rightarrow> \<sigma> | _ \<Rightarrow> Map.empty)"

definition rootsOf :: "(abort + ref list \<times> cache) option \<Rightarrow> ref list" where
  "rootsOf res = (case res of Some (Inr (rs, \<sigma>)) \<Rightarrow> rs | _ \<Rightarrow> [])"

text \<open>
  The working directory is \<^verbatim>\<open>/g/src/w\<close>, with the two packages \<^verbatim>\<open>w/p1\<close> and \<^verbatim>\<open>w/p2\<close>
  under it; both import \<open>d\<close>.
\<close>

definition twoRootsEnv :: env where
  "twoRootsEnv = exEnv ''/g/src/w'' [] []
     [(''w/p1'', exPkg ''w/p1'' ''p1'' [''a.go''] [''d'']),
      (''w/p2'', exPkg ''w/p2'' ''p2'' [''b.go''] [''d'']),
      (''d'', exPkg ''d'' ''d'' [''d.go''] [])]"

text \<open>
  A project outside every workspace: the working directory is \<^verbatim>\<open>/home/u/proj\<close>, and the
  package in \<^verbatim>\<open>/home/u/proj/x\<close>, loaded as \<^verbatim>\<open>./x\<close>, has no root (\<^verbatim>\<open>Root\<close> is empty).
  \<open>dirs\<close> are the directories that exist.
\<close>

definition outsideEnv :: "string list \<Rightarrow> env" where
  "outsideEnv dirs = exEnv ''/home/u/proj'' [] dirs []"

definition outsidePkg :: Package where
  "outsidePkg = newPackage (emptyBP\<lparr>Dir := ''/home/u/proj/x'', Name := ''x'', ImportPath := ''./x''\<rparr>)"

text \<open>
  The workspace \<^verbatim>\<open>/g\<close> with working directory \<^verbatim>\<open>/g/src/a\<close> and the package \<^verbatim>\<open>a/b\<close>;
  \<open>skips\<close> are the update patterns.
\<close>

definition vendorEnv :: "(string \<Rightarrow> bool) list \<Rightarrow> string list \<Rightarrow> env" where
  "vendorEnv skips dirs = exEnv ''/g/src/a'' skips dirs []"

definition pkgAB :: Package where
  "pkgAB = newPackage (exPkg ''a/b'' ''b'' [''b.go''] [''d''])"

text \<open>
  A matcher for regular expressions without operators, enough for the update
  pattern \<^verbatim>\<open>d\<close>: such an expression \<^verbatim>\<open>^d$\<close> matches the string \<^verbatim>\<open>d\<close> only, and
  \<^verbatim>\<open>regexp.QuoteMeta\<close> leaves it unchanged.
\<close>

definition exMatchString :: "string \<Rightarrow> string \<Rightarrow> bool" where
  "exMatchString re s = (re = ''^'' @ s @ ''$'')"

text \<open>
  \<open>p\<close> holds the files \<^verbatim>\<open>Foo.go\<close> and \<^verbatim>\<open>foo.go\<close> and imports \<open>d\<close>.
\<close>

definition fileCollisionEnv :: env where
  "fileCollisionEnv = exEnv ''/g/src/p'' [] []
     [(''p'', exPkg ''p'' ''p'' [''Foo.go'', ''foo.go''] [''d'']),
      (''d'', exPkg ''d'' ''d'' [''d.go''] [])]"

definition pkgFoo :: Package where
  "pkgFoo = newPackage (exPkg ''p'' ''p'' [''Foo.go'', ''foo.go''] [''d''])"

text \<open>
  \<open>p\<close> imports \<^verbatim>\<open>fmt\<close>, a package of the standard library under \<^verbatim>\<open>/goroot\<close> that itself
  imports \<^verbatim>\<open>io\<close>.
\<close>

definition fmtBP :: build_Package where
  "fmtBP = emptyBP\<lparr>Dir := ''/goroot/src/fmt'', Name := ''fmt'', ImportPath := ''fmt'',
                  Root := ''/goroot'', Goroot := True, GoFiles := [''print.go''],
                  Imports := [''io'']\<rparr>"

definition stdEnv :: env where
  "stdEnv = exEnv ''/g/src/p'' [] []
     [(''p'', exPkg ''p'' ''p'' [''p.go''] [''fmt'']), (''fmt'', fmtBP)]"




text \<open>The cache that the loop of \<open>loadDeps\<close> returns.\<close>

definition loopCache :: "(abort + (string \<times> ref) list option \<times> cache) option \<Rightarrow> cache" where
  "loopCache res = (case res of Some (Inr (dps, \<sigma>)) \<Rightarrow> \<sigma> | _ \<Rightarrow> Map.empty)"

text \<open>
  \<open>p\<close> imports \<^verbatim>\<open>D\<close> and \<^verbatim>\<open>d\<close>, two import paths that differ in case only. In
  \<open>depCollisionEnv\<close> the package \<^verbatim>\<open>d\<close> does not exist, in \<open>depCollisionEnv2\<close> both do.
\<close>

definition depCollisionEnv :: env where
  "depCollisionEnv = exEnv ''/g/src/p'' [] []
     [(''p'', exPkg ''p'' ''p'' [''p.go''] [''D'', ''d'']),
      (''D'', exPkg ''D'' ''d'' [''d.go''] [])]"

definition depCollisionEnv2 :: env where
  "depCollisionEnv2 = exEnv ''/g/src/p'' [] []
     [(''p'', exPkg ''p'' ''p'' [''p.go''] [''D'', ''d'']),
      (''D'', exPkg ''D'' ''d'' [''d.go''] []),
      (''d'', exPkg ''d'' ''d'' [''d.go''] [])]"

definition pkgDd :: Package where
  "pkgDd = newPackage (exPkg ''p'' ''p'' [''p.go''] [''D'', ''d''])"

text \<open>The error of the package at \<open>r\<close> after \<open>loadDeps\<close>.\<close>

definition errorAfter :: "(abort + cache) option \<Rightarrow> ref \<Rightarrow> PackageError option" where
  "errorAfter res r = (case res of Some (Inr \<sigma>) \<Rightarrow> Error (deref \<sigma> r) | _ \<Rightarrow> None)"

section \<open>Evaluation\<close>

lemmas ex_defs = exEnv_def exImport_def exPkg_def emptyBP_def exClean_def exJoin_def
  exQuote_def exRunes_def exWriteRune_def exSimpleFold_def observe_def exFailed_def
  cacheOf_def rootsOf_def loopCache_def errorAfter_def

lemmas foldRune_numeral = foldRune.simps [of sf "numeral n" for sf n]

text \<open>The recursion budgets of the examples, as successors.\<close>

lemma fuel_simps:
  "packages 3 = packages (Suc (Suc (Suc 0)))"
  "packages 2 = packages (Suc (Suc 0))"
  "loadImport 3 = loadImport (Suc (Suc (Suc 0)))"
  "loadImport 2 = loadImport (Suc (Suc 0))"
  "loadImport 1 = loadImport (Suc 0)"
  by (simp_all add: numeral_2_eq_2 numeral_3_eq_3)

lemmas model_defs = fuel_simps foldRune_numeral word_sle_eq char_of_def bit_Suc_0_iff sublist_code
  packages_def loadPackage_def IsLocalImport_def vendoredImportPath_def
  newPackage_def copyBuild_def recordImport_def mergeDeps_def importPackage_def setPos_def
  loadDeps_def loadDeps_finish_def sourceFiles_def
  importPaths_def stringList_def foldDup_def toFold_def
  inCWD_def isDir_def vendorStep_def reusePackage_def setError_def setImport_def withPos_def
  plainError_def cycleError_def deref_def addVendorSearch_def shorterThan_def
  dependencies_def main_ok_def hasPathPrefix_def Let_def List.map_filter_def

section \<open>The seen test of the copier\<close>

lemma hasPathPrefix_boundary:
  assumes "pfx = [] \<or> last pfx \<noteq> CHR ''/''"
  shows "hasPathPrefix s pfx \<longleftrightarrow> s = pfx \<or> prefix (pfx @ ''/'') s"
proof (cases "length s \<le> length pfx")
  case True
  have "\<not> prefix (pfx @ ''/'') s"
    using True by (auto dest: prefix_length_le)
  moreover have "hasPathPrefix s pfx \<longleftrightarrow> s = pfx"
    using True by (auto simp: hasPathPrefix_def)
  ultimately show ?thesis by simp
next
  case False
  then have len: "length pfx < length s" by simp
  then have ne: "s \<noteq> pfx" by auto
  have nolast: "\<not> (pfx \<noteq> [] \<and> pfx ! (length pfx - 1) = CHR ''/'')"
    using assms by (auto simp: last_conv_nth)
  have "prefix (pfx @ ''/'') s \<longleftrightarrow> take (length pfx) s = pfx \<and> s ! length pfx = CHR ''/''"
  proof
    assume "prefix (pfx @ ''/'') s"
    then obtain r where "s = pfx @ ''/'' @ r" by (auto simp: prefix_def)
    then show "take (length pfx) s = pfx \<and> s ! length pfx = CHR ''/''"
      by (simp add: nth_append)
  next
    assume a: "take (length pfx) s = pfx \<and> s ! length pfx = CHR ''/''"
    have "s = take (length pfx) s @ (s ! length pfx) # drop (Suc (length pfx)) s"
      using len by (simp add: id_take_nth_drop [symmetric])
    with a have "s = (pfx @ ''/'') @ drop (Suc (length pfx)) s" by simp
    then show "prefix (pfx @ ''/'') s" by (metis prefixI)
  qed
  then show ?thesis
    using len ne nolast by (auto simp: hasPathPrefix_def)
qed

lemma hasPathPrefix_trailing_slash:
  assumes "pfx \<noteq> []" "last pfx = CHR ''/''"
  shows "hasPathPrefix s pfx \<longleftrightarrow> prefix pfx s"
proof -
  have l: "pfx ! (length pfx - 1) = CHR ''/''"
    using assms by (simp add: last_conv_nth)
  have "length s < length pfx \<Longrightarrow> \<not> prefix pfx s"
    by (auto dest: prefix_length_le)
  moreover have "length s = length pfx \<Longrightarrow> prefix pfx s \<longleftrightarrow> s = pfx"
    by (auto simp: prefix_def)
  ultimately show ?thesis
    using assms l by (auto simp: hasPathPrefix_def)
qed

lemma isSeen_iff: "isSeen s seen \<longleftrightarrow> list_ex (hasPathPrefix s) seen"
  by (induction seen) auto

text \<open>
  Claim C10, as stated: a candidate \<open>s\<close> is skipped for a materialized path \<open>p\<close> if and
  only if \<open>s = p\<close> or \<open>s\<close> starts with \<open>p\<close> followed by \<^verbatim>\<open>/\<close>. It fails for a path that
  ends in a separator: \<^verbatim>\<open>hasPathPrefix("foo/bar", "foo/")\<close> holds, though
  \<^verbatim>\<open>"foo/bar"\<close> neither equals \<^verbatim>\<open>"foo/"\<close> nor starts with \<^verbatim>\<open>"foo//"\<close>.
\<close>

theorem C10_trailing_slash_counterexample:
  "\<not> (hasPathPrefix ''foo/bar'' ''foo/''
       \<longleftrightarrow> ''foo/bar'' = ''foo/'' \<or> prefix (''foo/'' @ ''/'') ''foo/bar'')"
  by (simp add: hasPathPrefix_def)

text \<open>
  Claim C10, amended: for a path \<open>p\<close> that does not end in \<^verbatim>\<open>/\<close> (the empty path
  included), the candidate \<open>s\<close> matches if and only if \<open>s = p\<close> or \<open>s\<close> starts with \<open>p\<close>
  followed by \<^verbatim>\<open>/\<close>; for a path \<open>p\<close> that ends in \<^verbatim>\<open>/\<close>, it matches if and only if \<open>s\<close>
  starts with \<open>p\<close>. A candidate is skipped by \<open>isSeen\<close> if and only if it matches one
  of the paths seen. So \<^verbatim>\<open>"foo"\<close> covers \<^verbatim>\<open>"foo/bar"\<close> and never \<^verbatim>\<open>"foobar"\<close>.
\<close>

theorem C10_seen_at_segment_boundaries:
  "(hasPathPrefix s p \<longleftrightarrow>
      (if p \<noteq> [] \<and> last p = CHR ''/'' then prefix p s
       else s = p \<or> prefix (p @ ''/'') s))
   \<and> (isSeen s seen \<longleftrightarrow>
        list_ex (\<lambda>p. if p \<noteq> [] \<and> last p = CHR ''/'' then prefix p s
                     else s = p \<or> prefix (p @ ''/'') s) seen)"
proof -
  have one: "hasPathPrefix s p \<longleftrightarrow>
      (if p \<noteq> [] \<and> last p = CHR ''/'' then prefix p s
       else s = p \<or> prefix (p @ ''/'') s)" for p
    using hasPathPrefix_boundary [of p s] hasPathPrefix_trailing_slash [of p s]
    by (cases "p \<noteq> [] \<and> last p = CHR ''/''") auto
  show ?thesis
    unfolding isSeen_iff using one by (simp cong: list_ex_cong)
qed

theorem C10_seen_at_segment_boundaries_witness:
  "hasPathPrefix ''foo/bar'' ''foo'' \<and> \<not> hasPathPrefix ''foobar'' ''foo''
   \<and> isSeen ''foo/bar'' [''baz'', ''foo''] \<and> \<not> isSeen ''foobar'' [''baz'', ''foo'']"
  using C10_seen_at_segment_boundaries [of "''foo/bar''" "''foo''" "[''baz'', ''foo'']"]
    C10_seen_at_segment_boundaries [of "''foobar''" "''foo''" "[''baz'', ''foo'']"]
  by simp

section \<open>The order on import stacks and the reuse of a cached package\<close>

lemma shorterThan_ties_zip:
  "length s = length t \<Longrightarrow> shorterThan_ties (zip s t) \<longleftrightarrow> s < t"
proof (induction s arbitrary: t)
  case Nil
  then show ?case by simp
next
  case (Cons a s)
  then obtain b t' where t: "t = b # t'" by (cases t) auto
  with Cons show ?case by auto
qed

lemma shorterThan_iff:
  "shorterThan s t \<longleftrightarrow> length s < length t \<or> (length s = length t \<and> s < t)"
  by (auto simp: shorterThan_def shorterThan_ties_zip)

lemma shorterThan_irrefl: "\<not> shorterThan s s"
  by (simp add: shorterThan_iff)

lemma shorterThan_trans: "shorterThan s t \<Longrightarrow> shorterThan t u \<Longrightarrow> shorterThan s u"
  by (auto simp: shorterThan_iff)

lemma shorterThan_total: "s \<noteq> t \<Longrightarrow> shorterThan s t \<or> shorterThan t s"
  by (auto simp: shorterThan_iff)

lemma shorterThan_asym: "shorterThan s t \<Longrightarrow> \<not> shorterThan t s"
  by (auto simp: shorterThan_iff)

lemma reusePackage_plain_error:
  assumes "Error p = Some err" "\<not> isImportCycle err"
  shows "reusePackage p stk =
           p\<lparr>Error := Some (err\<lparr>ImportStack :=
                (if shorterThan stk (ImportStack err) then stk else ImportStack err)\<rparr>)\<rparr>"
  using assms by (simp add: reusePackage_def)

lemma reusePackage_cycle_error:
  assumes "Error p = Some err" "isImportCycle err"
  shows "reusePackage p stk = p"
  using assms by (simp add: reusePackage_def)

lemma reusePackage_no_error:
  assumes "Error p = None"
  shows "reusePackage p stk = (if loadedDeps p then p\<lparr>Error := Some (cycleError stk)\<rparr> else p)"
  using assms by (simp add: reusePackage_def cycleError_def)

text \<open>
  What a run of re-encounters leaves: the package changes in its error only; a cycle
  error stays as it is; a plain error keeps everything but its stack, which becomes
  the least of the stored stack and the stacks of the encounters.
\<close>

lemma reuse_fold_cycle_error:
  assumes "Error p = Some err" "isImportCycle err"
  shows "foldl reusePackage p stks = p"
  using assms by (induction stks) (simp_all add: reusePackage_cycle_error)

lemma reuse_fold_plain_error:
  assumes "Error p = Some err" "\<not> isImportCycle err"
  shows "\<exists>m. foldl reusePackage p stks = p\<lparr>Error := Some (err\<lparr>ImportStack := m\<rparr>)\<rparr>
             \<and> m \<in> set (ImportStack err # stks)
             \<and> list_all (\<lambda>s. \<not> shorterThan s m) (ImportStack err # stks)"
  using assms
proof (induction stks arbitrary: p err)
  case Nil
  then show ?case by (auto simp: shorterThan_irrefl)
next
  case (Cons stk stks)
  let ?m0 = "if shorterThan stk (ImportStack err) then stk else ImportStack err"
  let ?err1 = "err\<lparr>ImportStack := ?m0\<rparr>"
  let ?p1 = "p\<lparr>Error := Some ?err1\<rparr>"
  have step: "reusePackage p stk = ?p1"
    using Cons.prems by (rule reusePackage_plain_error)
  have "Error ?p1 = Some ?err1" "\<not> isImportCycle ?err1"
    using Cons.prems by simp_all
  from Cons.IH [OF this] obtain m where
    m: "foldl reusePackage ?p1 stks = ?p1\<lparr>Error := Some (?err1\<lparr>ImportStack := m\<rparr>)\<rparr>"
       "m \<in> set (ImportStack ?err1 # stks)"
       "list_all (\<lambda>s. \<not> shorterThan s m) (ImportStack ?err1 # stks)"
    by blast
  have low: "\<not> shorterThan ?m0 m" using m(3) by simp
  have a: "\<not> shorterThan stk m"
    using low by (auto simp: shorterThan_iff split: if_splits)
  have b: "\<not> shorterThan (ImportStack err) m"
    using low by (auto simp: shorterThan_iff split: if_splits)
  have eq: "foldl reusePackage p (stk # stks) = p\<lparr>Error := Some (err\<lparr>ImportStack := m\<rparr>)\<rparr>"
    using m(1) step by simp
  have mem: "m \<in> set (ImportStack err # stk # stks)"
    using m(2) by (auto split: if_splits)
  have "list_all (\<lambda>s. \<not> shorterThan s m) (ImportStack err # stk # stks)"
    using a b m(3) by simp
  with eq mem show ?case by blast
qed

section \<open>Import cycles\<close>

text \<open>
  \<open>reusePackage\<close> attaches a cycle error exactly to a package without error whose
  \<^verbatim>\<open>loadedDeps\<close> flag is set, that is, to a package that has finished loading.
\<close>

lemma reusePackage_cycle_iff:
  "(\<exists>err. Error (reusePackage p stk) = Some err \<and> isImportCycle err)
     \<longleftrightarrow> (loadedDeps p \<and> Error p = None) \<or> (\<exists>err. Error p = Some err \<and> isImportCycle err)"
  by (auto simp: reusePackage_def cycleError_def split: option.splits if_splits)

lemma reusePackage_still_loading:
  "\<not> loadedDeps p \<Longrightarrow> Error p = None \<Longrightarrow> reusePackage p stk = p"
  by (simp add: reusePackage_def)

text \<open>
  Claim C1 on the graph \<open>p \<rightarrow> q \<rightarrow> p\<close>, loaded from the root \<open>p\<close>. The run ends, with
  \<open>p\<close> and \<open>q\<close> in the cache, both loaded and in each other's dependency lists, and
  neither carries an error: the re-entry of \<open>p\<close> while it is loading is not reported.
\<close>

theorem C1_cycle_terminates_without_error:
  "observe [''p'', ''q''] (packages 3 cycleEnv [''p''] Map.empty)
     = Some (Inr ([''p''], [Some (None, True, [''p'', ''q'']), Some (None, True, [''p''])]))"
  by (simp add: cycleEnv_def ex_defs model_defs)

text \<open>
  The other half of the claim fails as well: in the diamond, \<open>d\<close> has finished loading
  when \<open>b\<close> imports it again, and this reuse attaches the cycle error to it.
\<close>

lemma diamond_reuse_reports_cycle:
  "observe [''d''] (packages 3 diamondEnv [''p''] Map.empty)
     = Some (Inr ([''p''], [Some (Some (cycleError [''p'', ''b'', ''d'']), True, [])]))"
  by (simp add: diamondEnv_def ex_defs model_defs)

section \<open>The dependency aggregator\<close>

text \<open>
  Claim C2, as stated, asks for a list free of duplicates even when roots share a
  dependency. \<open>dependencies\<close> appends and sorts and never removes anything: with the
  two roots \<^verbatim>\<open>w/p1\<close> and \<^verbatim>\<open>w/p2\<close> that both import \<open>d\<close>, the list is \<open>[d, d]\<close>.
\<close>

theorem C2_shared_dependency_counterexample:
  "dependencies twoRootsEnv
     (cacheOf (packages 3 twoRootsEnv [''w/p1'', ''w/p2''] Map.empty))
     (rootsOf (packages 3 twoRootsEnv [''w/p1'', ''w/p2''] Map.empty)) = [''d'', ''d'']
   \<and> \<not> distinct (dependencies twoRootsEnv
          (cacheOf (packages 3 twoRootsEnv [''w/p1'', ''w/p2''] Map.empty))
          (rootsOf (packages 3 twoRootsEnv [''w/p1'', ''w/p2''] Map.empty)))"
  by (simp add: twoRootsEnv_def ex_defs model_defs)

text \<open>
  Claim C2, amended: the aggregated list holds exactly the entries of the roots'
  dependency lists whose source directory is not within the working directory's
  subtree, each as often as it occurs in the lists of the roots taken together, and it
  is sorted ascending by import path. It is free of duplicates if and only if no such
  entry occurs twice in the lists of the roots taken together.
\<close>

theorem C2_aggregate_sorted_exact:
  "mset (dependencies e \<sigma> pkgs)
     = mset (filter (\<lambda>d. \<not> inCWD e (Dir (build (deref \<sigma> d))))
               (concat (map (\<lambda>p. deps (deref \<sigma> p)) pkgs)))
   \<and> set (dependencies e \<sigma> pkgs)
     = {d \<in> (\<Union>p \<in> set pkgs. set (deps (deref \<sigma> p))). \<not> inCWD e (Dir (build (deref \<sigma> d)))}
   \<and> sorted (map (\<lambda>d. ImportPath (build (deref \<sigma> d))) (dependencies e \<sigma> pkgs))
   \<and> (distinct (dependencies e \<sigma> pkgs)
        \<longleftrightarrow> distinct (filter (\<lambda>d. \<not> inCWD e (Dir (build (deref \<sigma> d))))
                        (concat (map (\<lambda>p. deps (deref \<sigma> p)) pkgs))))"
proof -
  let ?xs = "filter (\<lambda>d. \<not> inCWD e (Dir (build (deref \<sigma> d))))
               (concat (map (\<lambda>p. deps (deref \<sigma> p)) pkgs))"
  have m: "mset (dependencies e \<sigma> pkgs) = mset ?xs"
    by (simp add: dependencies_def)
  have s: "set (dependencies e \<sigma> pkgs)
     = {d \<in> (\<Union>p \<in> set pkgs. set (deps (deref \<sigma> p))). \<not> inCWD e (Dir (build (deref \<sigma> d)))}"
    by (auto simp: dependencies_def)
  have o: "sorted (map (\<lambda>d. ImportPath (build (deref \<sigma> d))) (dependencies e \<sigma> pkgs))"
    by (simp add: dependencies_def)
  have d: "distinct (dependencies e \<sigma> pkgs) \<longleftrightarrow> distinct ?xs"
    using m by (rule mset_eq_imp_distinct_iff)
  from m s o d show ?thesis by blast
qed

theorem C2_aggregate_sorted_exact_witness:
  "dependencies diamondEnv (cacheOf (packages 3 diamondEnv [''p''] Map.empty)) [''p'']
     = [''a'', ''b'', ''d'']
   \<and> distinct (dependencies diamondEnv (cacheOf (packages 3 diamondEnv [''p''] Map.empty)) [''p''])"
proof -
  let ?\<sigma> = "cacheOf (packages 3 diamondEnv [''p''] Map.empty)"
  have v: "dependencies diamondEnv ?\<sigma> [''p''] = [''a'', ''b'', ''d'']"
    by (simp add: diamondEnv_def ex_defs model_defs)
  have f: "filter (\<lambda>d. \<not> inCWD diamondEnv (Dir (build (deref ?\<sigma> d))))
             (concat (map (\<lambda>p. deps (deref ?\<sigma> p)) [''p''])) = [''a'', ''b'', ''d'']"
    by (simp add: diamondEnv_def ex_defs model_defs)
  have "distinct (dependencies diamondEnv ?\<sigma> [''p''])"
    using C2_aggregate_sorted_exact [of diamondEnv ?\<sigma> "[''p'']"] unfolding f by simp
  with v show ?thesis by simp
qed

text \<open>
  The copy loop of \<^verbatim>\<open>main\<close> makes up for the repeats: a package handed to \<^verbatim>\<open>copyDep\<close>
  was not seen before, so no import path is copied twice.
\<close>

lemma hasPathPrefix_self: "hasPathPrefix s s"
  by (simp add: hasPathPrefix_def)

lemma isSeen_append: "isSeen s (seen @ later) \<longleftrightarrow> isSeen s seen \<or> isSeen s later"
  by (induction seen) auto

lemma copyLoop_unseen:
  "r \<in> set (copyLoop \<sigma> ds seen) \<Longrightarrow> \<not> isSeen (ImportPath (build (deref \<sigma> r))) seen"
proof (induction ds arbitrary: seen)
  case Nil
  then show ?case by simp
next
  case (Cons pkg rest)
  show ?case
  proof (cases "isSeen (ImportPath (build (deref \<sigma> pkg))) seen")
    case True
    with Cons show ?thesis by simp
  next
    case False
    with Cons.prems have "r = pkg \<or> r \<in> set (copyLoop \<sigma> rest (seen @ [ImportPath (build (deref \<sigma> pkg))]))"
      by simp
    then show ?thesis
      using False Cons.IH [of "seen @ [ImportPath (build (deref \<sigma> pkg))]"]
      by (auto simp: isSeen_append)
  qed
qed

lemma copyLoop_distinct:
  "distinct (map (\<lambda>r. ImportPath (build (deref \<sigma> r))) (copyLoop \<sigma> ds seen))"
proof (induction ds arbitrary: seen)
  case Nil
  show ?case by simp
next
  case (Cons pkg rest)
  let ?k = "ImportPath (build (deref \<sigma> pkg))"
  have "ImportPath (build (deref \<sigma> r)) \<noteq> ?k" if "r \<in> set (copyLoop \<sigma> rest (seen @ [?k]))" for r
  proof
    assume "ImportPath (build (deref \<sigma> r)) = ?k"
    moreover have "\<not> isSeen (ImportPath (build (deref \<sigma> r))) (seen @ [?k])"
      using that by (rule copyLoop_unseen)
    ultimately show False
      by (simp add: isSeen_append hasPathPrefix_self)
  qed
  then have new: "?k \<notin> (\<lambda>r. ImportPath (build (deref \<sigma> r))) ` set (copyLoop \<sigma> rest (seen @ [?k]))"
    by force
  show ?case
  proof (cases "isSeen ?k seen")
    case True
    then show ?thesis using Cons.IH [of seen] by simp
  next
    case False
    then show ?thesis using Cons.IH [of "seen @ [?k]"] new by simp
  qed
qed

section \<open>The vendor path resolver\<close>

lemma vendorStep_found:
  assumes "vendorAt e dir path i"
  shows "vendorStep e par path dir i searched =
           (let ip = ImportPath (build par); chopped = length dir - i
            in if chopped = length ip + 1 then Found (Inr (''vendor/'' @ path))
               else if length ip < chopped then Found (Inl Panic)
               else Found (Inr (take (length ip - chopped) ip @ ''/'' @ ''vendor/'' @ path)))"
  using assms
  by (auto simp: vendorAt_def hasVendorDir_def boundary_def vendorStep_def Let_def)

lemma vendorStep_continue:
  assumes "\<not> vendorAt e dir path i" "i \<le> length dir"
  shows "vendorStep e par path dir i searched =
           Continue (if hasVendorDir e dir i
                     then searched @ [filepath_Join e (take i dir) (''vendor/'' @ path)]
                     else searched)"
  using assms
  by (auto simp: vendorAt_def hasVendorDir_def boundary_def vendorStep_def Let_def)

lemma vendorLoop_none:
  assumes "\<forall>i. lo \<le> i \<and> i \<le> lo + k \<longrightarrow> \<not> vendorAt e dir path i" "lo + k \<le> length dir"
  shows "vendorLoop e par path dir lo k searched =
           Inr (path, searched @ map (\<lambda>i. filepath_Join e (take i dir) (''vendor/'' @ path))
                                   (filter (hasVendorDir e dir) (rev [lo ..< Suc (lo + k)])))"
  using assms
proof (induction k arbitrary: searched)
  case 0
  then have "\<not> vendorAt e dir path lo" "lo \<le> length dir" by auto
  then show ?case by (simp add: vendorStep_continue)
next
  case (Suc k)
  have here: "\<not> vendorAt e dir path (lo + Suc k)" "lo + Suc k \<le> length dir"
    using Suc.prems by auto
  have rest: "\<forall>i. lo \<le> i \<and> i \<le> lo + k \<longrightarrow> \<not> vendorAt e dir path i" "lo + k \<le> length dir"
    using Suc.prems by auto
  show ?case
    using vendorStep_continue [OF here, of par] Suc.IH [OF rest] by simp
qed

lemma vendorLoop_deepest:
  assumes "lo \<le> i" "i \<le> lo + k" "vendorAt e dir path i"
    and "\<forall>j. i < j \<and> j \<le> lo + k \<longrightarrow> \<not> vendorAt e dir path j" "lo + k \<le> length dir"
  shows "vendorLoop e par path dir lo k searched =
           (let ip = ImportPath (build par); chopped = length dir - i
            in if chopped = length ip + 1 then Inr (''vendor/'' @ path, [])
               else if length ip < chopped then Inl Panic
               else Inr (take (length ip - chopped) ip @ ''/'' @ ''vendor/'' @ path, []))"
  using assms
proof (induction k arbitrary: searched)
  case 0
  then have "i = lo" by simp
  with 0 show ?case by (simp add: vendorStep_found Let_def)
next
  case (Suc k)
  show ?case
  proof (cases "i = lo + Suc k")
    case True
    with Suc.prems show ?thesis by (simp add: vendorStep_found Let_def)
  next
    case False
    then have le: "i \<le> lo + k" using Suc.prems by simp
    have here: "\<not> vendorAt e dir path (lo + Suc k)" "lo + Suc k \<le> length dir"
      using Suc.prems False by auto
    have rest: "\<forall>j. i < j \<and> j \<le> lo + k \<longrightarrow> \<not> vendorAt e dir path j" "lo + k \<le> length dir"
      using Suc.prems by auto
    show ?thesis
      using vendorStep_continue [OF here, of par]
        Suc.IH [OF Suc.prems(1) le Suc.prems(3) rest] by simp
  qed
qed

lemma vendoredImportPath_walk:
  assumes "dirBelowRoot e par" "inCWD e (parentDir e par)"
    and "\<not> list_ex (\<lambda>match. match path) (skipVendor e)"
  shows "vendoredImportPath e (Some par) path =
           vendorLoop e par path (parentDir e par) (length (parentRoot e par))
             (length (parentDir e par) - length (parentRoot e par)) []"
  using assms
  by (simp add: vendoredImportPath_def dirBelowRoot_def parentDir_def parentRoot_def Let_def)

lemma vendoredImportPath_exit:
  assumes "\<not> dirBelowRoot e par" "\<not> list_ex (\<lambda>match. match path) (skipVendor e)"
  shows "vendoredImportPath e (Some par) path = Inl Exit"
  using assms
  by (auto simp: vendoredImportPath_def dirBelowRoot_def parentDir_def parentRoot_def Let_def)

lemma vendoredImportPath_deepest:
  assumes ok: "dirBelowRoot e par" "inCWD e (parentDir e par)"
      "\<not> list_ex (\<lambda>match. match path) (skipVendor e)"
    and i: "length (parentRoot e par) \<le> i" "i \<le> length (parentDir e par)"
      "vendorAt e (parentDir e par) path i"
    and deepest: "\<forall>j. i < j \<and> j \<le> length (parentDir e par) \<longrightarrow> \<not> vendorAt e (parentDir e par) path j"
    and chop: "length (parentDir e par) - i \<le> length (ImportPath (build par)) + 1"
  shows "vendoredImportPath e (Some par) path =
           Inr (expandedPath (ImportPath (build par)) (length (parentDir e par) - i) path, [])"
proof -
  let ?dir = "parentDir e par" and ?lo = "length (parentRoot e par)"
  have lt: "?lo < length ?dir" using ok(1) by (simp add: dirBelowRoot_def)
  then have eq: "?lo + (length ?dir - ?lo) = length ?dir" by simp
  have "vendorLoop e par path ?dir ?lo (length ?dir - ?lo) [] =
          (let ip = ImportPath (build par); chopped = length ?dir - i
           in if chopped = length ip + 1 then Inr (''vendor/'' @ path, [])
              else if length ip < chopped then Inl Panic
              else Inr (take (length ip - chopped) ip @ ''/'' @ ''vendor/'' @ path, []))"
    by (rule vendorLoop_deepest [where i = i]) (use i deepest eq in auto)
  then show ?thesis
    using chop vendoredImportPath_walk [OF ok] by (auto simp: expandedPath_def Let_def)
qed

lemma vendoredImportPath_none:
  assumes ok: "dirBelowRoot e par" "inCWD e (parentDir e par)"
      "\<not> list_ex (\<lambda>match. match path) (skipVendor e)"
    and none: "\<forall>i. length (parentRoot e par) \<le> i \<and> i \<le> length (parentDir e par)
                 \<longrightarrow> \<not> vendorAt e (parentDir e par) path i"
  shows "vendoredImportPath e (Some par) path =
           Inr (path, map (\<lambda>i. filepath_Join e (take i (parentDir e par)) (''vendor/'' @ path))
                        (filter (hasVendorDir e (parentDir e par))
                           (rev [length (parentRoot e par) ..< Suc (length (parentDir e par))])))"
proof -
  let ?dir = "parentDir e par" and ?lo = "length (parentRoot e par)"
  have lt: "?lo < length ?dir" using ok(1) by (simp add: dirBelowRoot_def)
  then have eq: "?lo + (length ?dir - ?lo) = length ?dir" by simp
  have "vendorLoop e par path ?dir ?lo (length ?dir - ?lo) [] =
          Inr (path, [] @ map (\<lambda>i. filepath_Join e (take i ?dir) (''vendor/'' @ path))
                            (filter (hasVendorDir e ?dir) (rev [?lo ..< Suc (?lo + (length ?dir - ?lo))])))"
    by (rule vendorLoop_none) (use none eq in auto)
  then show ?thesis
    using vendoredImportPath_walk [OF ok] eq by simp
qed

lemma vendoredImportPath_unchanged:
  shows "vendoredImportPath e None path = Inr (path, [])"
    and "list_ex (\<lambda>match. match path) (skipVendor e) \<Longrightarrow> vendoredImportPath e (Some par) path = Inr (path, [])"
    and "dirBelowRoot e par \<Longrightarrow> \<not> inCWD e (parentDir e par) \<Longrightarrow> vendoredImportPath e (Some par) path = Inr (path, [])"
  by (auto simp: vendoredImportPath_def dirBelowRoot_def parentDir_def parentRoot_def Let_def)

lemmas vendor_ex_defs = vendorEnv_def outsideEnv_def outsidePkg_def pkgAB_def
  parentDir_def parentRoot_def dirBelowRoot_def vendorAt_def hasVendorDir_def boundary_def
  expandedPath_def

text \<open>
  Claim C3, as stated, holds for every parent under the working root whose import
  matches no skip predicate. It fails where the parent's directory is not below its
  root: for a package outside every workspace (\<^verbatim>\<open>Root\<close> is empty, and its clean form
  \<^verbatim>\<open>"."\<close> is no prefix of the directory) \<^verbatim>\<open>vendoredImportPath\<close> logs and calls
  \<^verbatim>\<open>os.Exit(1)\<close>. Here no directory exists at all, so no candidate exists, and the
  original path is not returned: the process exits.
\<close>

theorem C3_no_root_counterexample:
  "inCWD (outsideEnv []) (parentDir (outsideEnv []) outsidePkg)
   \<and> skipVendor (outsideEnv []) = []
   \<and> vendoredImportPath (outsideEnv []) (Some outsidePkg) ''d'' = Inl Exit
   \<and> vendoredImportPath (outsideEnv []) (Some outsidePkg) ''d'' \<noteq> Inr (''d'', [])"
  by (simp add: vendor_ex_defs ex_defs model_defs)

text \<open>
  The walk goes down to the root itself, above the \<^verbatim>\<open>src\<close> directory that import
  paths are relative to. A vendored copy found there makes the slice of the parent's
  import path panic; the amended claims below leave this case out.
\<close>

lemma vendor_above_src_panics:
  "vendoredImportPath (vendorEnv [] [''/g/vendor'', ''/g/vendor/d'']) (Some pkgAB) ''d'' = Inl Panic"
  by (simp add: vendor_ex_defs ex_defs model_defs)

text \<open>
  Claim C3, amended: for every parent package whose cleaned directory \<open>dir\<close> lies
  strictly below its cleaned root (otherwise the process exits), with \<open>dir\<close> under the
  working root and a raw import path that matches no skip predicate, the candidates
  are the path-segment boundaries \<open>i\<close> of \<open>dir\<close> from its end down to the end of the root.
  If \<open>i\<close> is the deepest boundary where \<^verbatim>\<open>vendor\<close> and \<^verbatim>\<open>vendor/<rawPath>\<close> both exist as
  directories under \<open>dir[:i]\<close>, and the chopped amount \<open>len(dir) - i\<close> is at most the length
  of the parent's import path plus one, the result is the parent's import path
  without its last \<open>len(dir) - i\<close> bytes followed by \<^verbatim>\<open>/vendor/<rawPath>\<close>, or exactly
  \<^verbatim>\<open>vendor/<rawPath>\<close> when the chopped amount is that length plus one, with no searched
  list. If no boundary has both, the original path is returned with the
  \<^verbatim>\<open>vendor/<rawPath>\<close> candidates of the boundaries that have a \<^verbatim>\<open>vendor\<close> directory, deepest
  first.
\<close>

theorem C3_deepest_vendor_wins:
  assumes "dirBelowRoot e par" "inCWD e (parentDir e par)"
    and "\<not> list_ex (\<lambda>match. match path) (skipVendor e)"
  shows "(length (parentRoot e par) \<le> i \<and> i \<le> length (parentDir e par)
          \<and> vendorAt e (parentDir e par) path i
          \<and> (\<forall>j. i < j \<and> j \<le> length (parentDir e par) \<longrightarrow> \<not> vendorAt e (parentDir e par) path j)
          \<and> length (parentDir e par) - i \<le> length (ImportPath (build par)) + 1
          \<longrightarrow> vendoredImportPath e (Some par) path =
                Inr (expandedPath (ImportPath (build par)) (length (parentDir e par) - i) path, []))
       \<and> ((\<forall>i. length (parentRoot e par) \<le> i \<and> i \<le> length (parentDir e par)
                 \<longrightarrow> \<not> vendorAt e (parentDir e par) path i)
          \<longrightarrow> vendoredImportPath e (Some par) path =
                Inr (path, map (\<lambda>i. filepath_Join e (take i (parentDir e par)) (''vendor/'' @ path))
                             (filter (hasVendorDir e (parentDir e par))
                                (rev [length (parentRoot e par) ..< Suc (length (parentDir e par))]))))"
  using vendoredImportPath_deepest [OF assms, of i] vendoredImportPath_none [OF assms]
  by blast

text \<open>
  Closest vendor wins: with \<^verbatim>\<open>a/vendor/d\<close> and \<^verbatim>\<open>a/b/vendor/d\<close>, the package \<^verbatim>\<open>a/b\<close>
  resolves \<open>d\<close> to \<^verbatim>\<open>a/b/vendor/d\<close>; with \<^verbatim>\<open>a/vendor/d\<close> alone, to \<^verbatim>\<open>a/vendor/d\<close>.
\<close>

theorem C3_deepest_vendor_wins_witness:
  "vendoredImportPath
     (vendorEnv [] [''/g/src/a/vendor'', ''/g/src/a/vendor/d'', ''/g/src/a/b/vendor'', ''/g/src/a/b/vendor/d''])
     (Some pkgAB) ''d'' = Inr (''a/b/vendor/d'', [])
   \<and> vendoredImportPath (vendorEnv [] [''/g/src/a/vendor'', ''/g/src/a/vendor/d''])
     (Some pkgAB) ''d'' = Inr (''a/vendor/d'', [])"
proof -
  let ?e2 = "vendorEnv [] [''/g/src/a/vendor'', ''/g/src/a/vendor/d'', ''/g/src/a/b/vendor'', ''/g/src/a/b/vendor/d'']"
  let ?e1 = "vendorEnv [] [''/g/src/a/vendor'', ''/g/src/a/vendor/d'']"
  have ok2: "dirBelowRoot ?e2 pkgAB" "inCWD ?e2 (parentDir ?e2 pkgAB)"
      "\<not> list_ex (\<lambda>match. match ''d'') (skipVendor ?e2)"
    by (simp_all add: vendor_ex_defs ex_defs model_defs)
  have at2: "length (parentRoot ?e2 pkgAB) \<le> 10 \<and> 10 \<le> length (parentDir ?e2 pkgAB)
          \<and> vendorAt ?e2 (parentDir ?e2 pkgAB) ''d'' 10
          \<and> (\<forall>j. 10 < j \<and> j \<le> length (parentDir ?e2 pkgAB) \<longrightarrow> \<not> vendorAt ?e2 (parentDir ?e2 pkgAB) ''d'' j)
          \<and> length (parentDir ?e2 pkgAB) - 10 \<le> length (ImportPath (build pkgAB)) + 1"
    by (simp add: vendor_ex_defs ex_defs model_defs)
  have r2: "vendoredImportPath ?e2 (Some pkgAB) ''d'' =
              Inr (expandedPath (ImportPath (build pkgAB)) (length (parentDir ?e2 pkgAB) - 10) ''d'', [])"
    using C3_deepest_vendor_wins [OF ok2, of 10] at2 by blast
  have ok1: "dirBelowRoot ?e1 pkgAB" "inCWD ?e1 (parentDir ?e1 pkgAB)"
      "\<not> list_ex (\<lambda>match. match ''d'') (skipVendor ?e1)"
    by (simp_all add: vendor_ex_defs ex_defs model_defs)
  have len1: "length (parentDir ?e1 pkgAB) = 10"
    by (simp add: vendor_ex_defs ex_defs model_defs)
  have deep1: "\<not> vendorAt ?e1 (parentDir ?e1 pkgAB) ''d'' j" if "8 < j" "j \<le> 10" for j
  proof -
    from that have "j = 9 \<or> j = 10" by arith
    then show ?thesis
      by (auto simp: vendor_ex_defs ex_defs model_defs)
  qed
  have at1: "length (parentRoot ?e1 pkgAB) \<le> 8 \<and> 8 \<le> length (parentDir ?e1 pkgAB)
          \<and> vendorAt ?e1 (parentDir ?e1 pkgAB) ''d'' 8
          \<and> length (parentDir ?e1 pkgAB) - 8 \<le> length (ImportPath (build pkgAB)) + 1"
    by (simp add: vendor_ex_defs ex_defs model_defs)
  have r1: "vendoredImportPath ?e1 (Some pkgAB) ''d'' =
              Inr (expandedPath (ImportPath (build pkgAB)) (length (parentDir ?e1 pkgAB) - 8) ''d'', [])"
    using C3_deepest_vendor_wins [OF ok1, of 8] at1 deep1 len1 by auto
  show ?thesis
    using r1 r2 by (simp add: vendor_ex_defs ex_defs model_defs)
qed

text \<open>
  Claim C6, as stated, promises the vendored copy's path for every parent under the
  working root with a vendored copy on its upward walk. Where the parent's
  directory is not below its root the process exits instead, although the copy
  \<^verbatim>\<open>/home/u/proj/x/vendor/d\<close> exists in the parent's own directory.
\<close>

theorem C6_no_root_counterexample:
  "inCWD (outsideEnv [''/home/u/proj/x/vendor'', ''/home/u/proj/x/vendor/d''])
     (parentDir (outsideEnv [''/home/u/proj/x/vendor'', ''/home/u/proj/x/vendor/d'']) outsidePkg)
   \<and> vendorAt (outsideEnv [''/home/u/proj/x/vendor'', ''/home/u/proj/x/vendor/d''])
       (parentDir (outsideEnv [''/home/u/proj/x/vendor'', ''/home/u/proj/x/vendor/d'']) outsidePkg) ''d'' 14
   \<and> vendoredImportPath (outsideEnv [''/home/u/proj/x/vendor'', ''/home/u/proj/x/vendor/d''])
       (Some outsidePkg) ''d'' = Inl Exit"
  by (simp add: vendor_ex_defs ex_defs model_defs)

text \<open>
  Claim C6, amended. The raw path is returned unchanged if there is no parent, or if
  it matches one of the skip predicates (in particular one of the patterns of the
  update flag); both hold for every parent. For a parent whose cleaned directory lies
  strictly below its cleaned root (otherwise the process exits): if the directory is
  outside the working root, the raw path is returned unchanged; if it is under the
  working root, the path matches no skip predicate and a vendored copy exists on the
  upward walk, the deepest one at a boundary whose chopped amount is at most the
  length of the parent's import path plus one, the result is the expanded import
  path of that copy.
\<close>

theorem C6_vendor_shadowing:
  "vendoredImportPath e None path = Inr (path, [])
   \<and> (list_ex (\<lambda>match. match path) (skipVendor e)
        \<longrightarrow> vendoredImportPath e (Some par) path = Inr (path, []))
   \<and> (skipVendor e = flagUPats QuoteMeta MatchString u
        \<and> list_ex (\<lambda>pat. matchPattern QuoteMeta MatchString pat path) (splitList u)
        \<longrightarrow> vendoredImportPath e (Some par) path = Inr (path, []))
   \<and> (dirBelowRoot e par \<and> \<not> inCWD e (parentDir e par)
        \<longrightarrow> vendoredImportPath e (Some par) path = Inr (path, []))
   \<and> (dirBelowRoot e par \<and> inCWD e (parentDir e par)
        \<and> \<not> list_ex (\<lambda>match. match path) (skipVendor e)
        \<and> length (parentRoot e par) \<le> i \<and> i \<le> length (parentDir e par)
        \<and> vendorAt e (parentDir e par) path i
        \<and> (\<forall>j. i < j \<and> j \<le> length (parentDir e par) \<longrightarrow> \<not> vendorAt e (parentDir e par) path j)
        \<and> length (parentDir e par) - i \<le> length (ImportPath (build par)) + 1
        \<longrightarrow> vendoredImportPath e (Some par) path =
              Inr (expandedPath (ImportPath (build par)) (length (parentDir e par) - i) path, []))"
proof (intro conjI impI)
  show "vendoredImportPath e None path = Inr (path, [])"
    by (rule vendoredImportPath_unchanged(1))
next
  assume "list_ex (\<lambda>match. match path) (skipVendor e)"
  then show "vendoredImportPath e (Some par) path = Inr (path, [])"
    by (rule vendoredImportPath_unchanged(2))
next
  assume a: "skipVendor e = flagUPats QuoteMeta MatchString u
        \<and> list_ex (\<lambda>pat. matchPattern QuoteMeta MatchString pat path) (splitList u)"
  then have "list_ex (\<lambda>match. match path) (skipVendor e)"
    by (simp add: flagUPats_def list_ex_iff)
  then show "vendoredImportPath e (Some par) path = Inr (path, [])"
    by (rule vendoredImportPath_unchanged(2))
next
  assume "dirBelowRoot e par \<and> \<not> inCWD e (parentDir e par)"
  then show "vendoredImportPath e (Some par) path = Inr (path, [])"
    using vendoredImportPath_unchanged(3) [of e par path] by blast
next
  assume a: "dirBelowRoot e par \<and> inCWD e (parentDir e par)
        \<and> \<not> list_ex (\<lambda>match. match path) (skipVendor e)
        \<and> length (parentRoot e par) \<le> i \<and> i \<le> length (parentDir e par)
        \<and> vendorAt e (parentDir e par) path i
        \<and> (\<forall>j. i < j \<and> j \<le> length (parentDir e par) \<longrightarrow> \<not> vendorAt e (parentDir e par) path j)
        \<and> length (parentDir e par) - i \<le> length (ImportPath (build par)) + 1"
  show "vendoredImportPath e (Some par) path =
              Inr (expandedPath (ImportPath (build par)) (length (parentDir e par) - i) path, [])"
    by (rule vendoredImportPath_deepest) (use a in blast)+
qed

text \<open>
  Vendor shadowing: \<open>p\<close> (here \<^verbatim>\<open>a/b\<close>) imports \<open>d\<close> and \<^verbatim>\<open>a/b/vendor/d\<close> exists. Without an
  update pattern the import resolves to the vendored copy; with the update flag
  \<^verbatim>\<open>x:d\<close> it stays \<open>d\<close>; and for a parent outside the working root it stays \<open>d\<close>.
\<close>

theorem C6_vendor_shadowing_witness:
  "vendoredImportPath (vendorEnv [] [''/g/src/a/b/vendor'', ''/g/src/a/b/vendor/d''])
     (Some pkgAB) ''d'' = Inr (''a/b/vendor/d'', [])
   \<and> vendoredImportPath
       (vendorEnv (flagUPats id exMatchString ''x:d'') [''/g/src/a/b/vendor'', ''/g/src/a/b/vendor/d''])
       (Some pkgAB) ''d'' = Inr (''d'', [])
   \<and> vendoredImportPath (vendorEnv [] [''/g/src/q/vendor'', ''/g/src/q/vendor/d''])
       (Some (newPackage (exPkg ''q'' ''q'' [''q.go''] [''d'']))) ''d'' = Inr (''d'', [])"
proof -
  let ?e = "vendorEnv [] [''/g/src/a/b/vendor'', ''/g/src/a/b/vendor/d'']"
  let ?u = "vendorEnv (flagUPats id exMatchString ''x:d'') [''/g/src/a/b/vendor'', ''/g/src/a/b/vendor/d'']"
  let ?o = "vendorEnv [] [''/g/src/q/vendor'', ''/g/src/q/vendor/d'']"
  let ?q = "newPackage (exPkg ''q'' ''q'' [''q.go''] [''d''])"
  have at: "dirBelowRoot ?e pkgAB \<and> inCWD ?e (parentDir ?e pkgAB)
        \<and> \<not> list_ex (\<lambda>match. match ''d'') (skipVendor ?e)
        \<and> length (parentRoot ?e pkgAB) \<le> 10 \<and> 10 \<le> length (parentDir ?e pkgAB)
        \<and> vendorAt ?e (parentDir ?e pkgAB) ''d'' 10
        \<and> (\<forall>j. 10 < j \<and> j \<le> length (parentDir ?e pkgAB) \<longrightarrow> \<not> vendorAt ?e (parentDir ?e pkgAB) ''d'' j)
        \<and> length (parentDir ?e pkgAB) - 10 \<le> length (ImportPath (build pkgAB)) + 1"
    by (simp add: vendor_ex_defs ex_defs model_defs)
  have r1: "vendoredImportPath ?e (Some pkgAB) ''d'' =
              Inr (expandedPath (ImportPath (build pkgAB)) (length (parentDir ?e pkgAB) - 10) ''d'', [])"
    using C6_vendor_shadowing [of ?e "''d''" pkgAB id exMatchString "''x:d''" 10] at by blast
  have sk: "skipVendor ?u = flagUPats id exMatchString ''x:d''
        \<and> list_ex (\<lambda>pat. matchPattern id exMatchString pat ''d'') (splitList ''x:d'')"
    by (simp add: vendor_ex_defs ex_defs splitList_def matchPattern_def exMatchString_def Let_def
        suffix_to_prefix)
  have r2: "vendoredImportPath ?u (Some pkgAB) ''d'' = Inr (''d'', [])"
    using C6_vendor_shadowing [of ?u "''d''" pkgAB id exMatchString "''x:d''" 10] sk by blast
  have out: "dirBelowRoot ?o ?q \<and> \<not> inCWD ?o (parentDir ?o ?q)"
    by (simp add: vendor_ex_defs ex_defs model_defs)
  have r3: "vendoredImportPath ?o (Some ?q) ''d'' = Inr (''d'', [])"
    using C6_vendor_shadowing [of ?o "''d''" ?q id exMatchString "''x:d''" 10] out by blast
  show ?thesis
    using r1 r2 r3 by (simp add: vendor_ex_defs ex_defs model_defs)
qed

section \<open>The collision detector\<close>

text \<open>
  With names that are not empty, \<open>foldDup\<close> reports a pair if and only if two entries
  of the list have the same folded form, and the pair it reports is such a pair,
  smaller name first.
\<close>

lemma foldDup_loop_none_iff:
  assumes "\<forall>s \<in> set list. s \<noteq> []" "\<forall>f t. clash f = Some t \<longrightarrow> t \<noteq> []"
  shows "fst (foldDup_loop e clash list) = []
           \<longleftrightarrow> distinct (map (toFold e) list) \<and> (\<forall>s \<in> set list. toFold e s \<notin> dom clash)"
  using assms
proof (induction list arbitrary: clash)
  case Nil
  then show ?case by simp
next
  case (Cons s list)
  show ?case
  proof (cases "clash (toFold e s)")
    case None
    have inv: "\<forall>f t. (clash(toFold e s \<mapsto> s)) f = Some t \<longrightarrow> t \<noteq> []"
      using Cons.prems by auto
    have names: "\<forall>s \<in> set list. s \<noteq> []" using Cons.prems by simp
    have "fst (foldDup_loop e clash (s # list)) = fst (foldDup_loop e (clash(toFold e s \<mapsto> s)) list)"
      using None by (simp add: Let_def)
    also have "\<dots> = [] \<longleftrightarrow>
        distinct (map (toFold e) list) \<and> (\<forall>s' \<in> set list. toFold e s' \<notin> dom (clash(toFold e s \<mapsto> s)))"
      by (rule Cons.IH [OF names inv])
    also have "\<dots> \<longleftrightarrow>
        distinct (map (toFold e) (s # list)) \<and> (\<forall>s' \<in> set (s # list). toFold e s' \<notin> dom clash)"
    proof -
      have k: "toFold e s \<notin> dom clash" using None by (simp add: domIff)
      have "(\<forall>s' \<in> set list. toFold e s' \<notin> dom (clash(toFold e s \<mapsto> s)))
              \<longleftrightarrow> toFold e s \<notin> toFold e ` set list \<and> (\<forall>s' \<in> set list. toFold e s' \<notin> dom clash)"
        by (simp add: image_iff) metis
      with k show ?thesis by auto
    qed
    finally show ?thesis .
  next
    case (Some t)
    then have "t \<noteq> []" using Cons.prems by blast
    moreover have "s \<noteq> []" using Cons.prems by simp
    ultimately have "fst (foldDup_loop e clash (s # list)) \<noteq> []"
      using Some by (simp add: Let_def)
    moreover have "toFold e s \<in> dom clash" using Some by auto
    ultimately show ?thesis by auto
  qed
qed

lemma foldDup_none_iff:
  assumes "\<forall>s \<in> set list. s \<noteq> []"
  shows "fst (foldDup e list) = [] \<longleftrightarrow> distinct (map (toFold e) list)"
  using foldDup_loop_none_iff [OF assms, of Map.empty e] by (simp add: foldDup_def)

lemma foldDup_loop_pair:
  assumes "fst (foldDup_loop e clash list) \<noteq> []"
    and "\<forall>f t. clash f = Some t \<longrightarrow> toFold e t = f \<and> t \<in> S"
  shows "fst (foldDup_loop e clash list) \<in> S \<union> set list
       \<and> snd (foldDup_loop e clash list) \<in> S \<union> set list
       \<and> toFold e (fst (foldDup_loop e clash list)) = toFold e (snd (foldDup_loop e clash list))
       \<and> fst (foldDup_loop e clash list) \<le> snd (foldDup_loop e clash list)"
  using assms
proof (induction list arbitrary: clash S)
  case Nil
  then show ?case by simp
next
  case (Cons s list)
  show ?case
  proof (cases "(case clash (toFold e s) of None \<Rightarrow> [] | Some t \<Rightarrow> t) = []")
    case True
    then have step: "foldDup_loop e clash (s # list) = foldDup_loop e (clash(toFold e s \<mapsto> s)) list"
      by (simp add: Let_def)
    have inv: "\<forall>f t. (clash(toFold e s \<mapsto> s)) f = Some t \<longrightarrow> toFold e t = f \<and> t \<in> insert s S"
      using Cons.prems(2) by auto
    have "fst (foldDup_loop e (clash(toFold e s \<mapsto> s)) list) \<noteq> []"
      using Cons.prems(1) step by simp
    from Cons.IH [OF this inv]
    have "fst (foldDup_loop e (clash(toFold e s \<mapsto> s)) list) \<in> insert s S \<union> set list"
      "snd (foldDup_loop e (clash(toFold e s \<mapsto> s)) list) \<in> insert s S \<union> set list"
      "toFold e (fst (foldDup_loop e (clash(toFold e s \<mapsto> s)) list))
         = toFold e (snd (foldDup_loop e (clash(toFold e s \<mapsto> s)) list))"
      "fst (foldDup_loop e (clash(toFold e s \<mapsto> s)) list)
         \<le> snd (foldDup_loop e (clash(toFold e s \<mapsto> s)) list)"
      by blast+
    moreover have "insert s S \<union> set list = S \<union> set (s # list)" by auto
    ultimately show ?thesis
      unfolding step by simp
  next
    case False
    then obtain t where t: "clash (toFold e s) = Some t" "t \<noteq> []"
      by (auto split: option.splits)
    then have "toFold e t = toFold e s" "t \<in> S" using Cons.prems(2) by auto
    then show ?thesis
      using t by (auto simp: Let_def)
  qed
qed

lemma foldDup_pair:
  assumes "fst (foldDup e list) \<noteq> []"
  shows "fst (foldDup e list) \<in> set list \<and> snd (foldDup e list) \<in> set list
       \<and> toFold e (fst (foldDup e list)) = toFold e (snd (foldDup e list))
       \<and> fst (foldDup e list) \<le> snd (foldDup e list)"
  using foldDup_loop_pair [of e Map.empty list "{}"] assms by (simp add: foldDup_def)

text \<open>
  Claim C7. \<open>loadDeps\<close> is entered for a package whose metadata was read (the loader
  reported no error, so \<open>err\<close> is \<open>None\<close>) and that is not in the standard library. If two
  entries of its list of file names, none of them empty, are equal under \<open>toFold\<close>,
  then the collision error, naming the pair that \<open>foldDup\<close> found, becomes the
  package's error and \<open>loadDeps\<close> returns: whatever the loader \<open>ld\<close> for the imports is,
  it is not called, the cache changes in that error only, and the package is neither
  marked loaded nor given dependencies.
\<close>

theorem C7_file_collision_stops_loading:
  assumes "\<forall>s \<in> set (sourceFiles (build p)). s \<noteq> []"
    and "\<not> distinct (map (toFold e) (sourceFiles (build p)))"
  shows "loadDeps e ld r p stk None \<sigma> =
           Some (Inr (setError r
             (plainError stk (''case-insensitive file name collision: ''
                @ fmt_q e (fst (foldDup e (sourceFiles (build p)))) @ '' and ''
                @ fmt_q e (snd (foldDup e (sourceFiles (build p)))))) \<sigma>))
       \<and> fst (foldDup e (sourceFiles (build p))) \<in> set (sourceFiles (build p))
       \<and> snd (foldDup e (sourceFiles (build p))) \<in> set (sourceFiles (build p))
       \<and> toFold e (fst (foldDup e (sourceFiles (build p))))
           = toFold e (snd (foldDup e (sourceFiles (build p))))
       \<and> loadedDeps (deref (setError r err \<sigma>) r) = loadedDeps (deref \<sigma> r)
       \<and> deps (deref (setError r err \<sigma>) r) = deps (deref \<sigma> r)
       \<and> (\<forall>k. k \<noteq> r \<longrightarrow> setError r err \<sigma> k = \<sigma> k)"
proof -
  have found: "fst (foldDup e (sourceFiles (build p))) \<noteq> []"
    using foldDup_none_iff [OF assms(1), of e] assms(2) by simp
  have "loadDeps e ld r p stk None \<sigma> =
           Some (Inr (setError r
             (plainError stk (''case-insensitive file name collision: ''
                @ fmt_q e (fst (foldDup e (sourceFiles (build p)))) @ '' and ''
                @ fmt_q e (snd (foldDup e (sourceFiles (build p)))))) \<sigma>))"
    using found by (simp add: loadDeps_def split_beta)
  moreover have "loadedDeps (deref (setError r err \<sigma>) r) = loadedDeps (deref \<sigma> r)"
    "deps (deref (setError r err \<sigma>) r) = deps (deref \<sigma> r)"
    "\<forall>k. k \<noteq> r \<longrightarrow> setError r err \<sigma> k = \<sigma> k"
    by (simp_all add: setError_def deref_def)
  ultimately show ?thesis
    using foldDup_pair [OF found] by blast
qed

text \<open>
  The package with \<^verbatim>\<open>Foo.go\<close> and \<^verbatim>\<open>foo.go\<close>: the error is recorded and its import \<open>d\<close>
  is not in the cache afterwards.
\<close>

theorem C7_file_collision_stops_loading_witness:
  "loadDeps fileCollisionEnv (loadImport 2 fileCollisionEnv) ''p'' pkgFoo [''p''] None
     [''p'' \<mapsto> pkgFoo]
   = Some (Inr [''p'' \<mapsto> pkgFoo\<lparr>Error := Some (plainError [''p'']
        (''case-insensitive file name collision: '' @ exQuote ''Foo.go'' @ '' and '' @ exQuote ''foo.go''))\<rparr>])
   \<and> observe [''p'', ''d''] (packages 3 fileCollisionEnv [''p''] Map.empty)
     = Some (Inr ([''p''], [Some (Some (plainError [''p'']
          (''case-insensitive file name collision: '' @ exQuote ''Foo.go'' @ '' and '' @ exQuote ''foo.go'')),
          False, []), None]))"
proof -
  have names: "\<forall>s \<in> set (sourceFiles (build pkgFoo)). s \<noteq> []"
    by (simp add: pkgFoo_def ex_defs model_defs)
  have clash: "\<not> distinct (map (toFold fileCollisionEnv) (sourceFiles (build pkgFoo)))"
    by (simp add: pkgFoo_def fileCollisionEnv_def ex_defs model_defs)
  have pair: "foldDup fileCollisionEnv (sourceFiles (build pkgFoo)) = (''Foo.go'', ''foo.go'')"
    by (simp add: pkgFoo_def fileCollisionEnv_def ex_defs model_defs)
  have q: "fmt_q fileCollisionEnv = exQuote"
    by (simp add: fileCollisionEnv_def exEnv_def)
  have "loadDeps fileCollisionEnv (loadImport 2 fileCollisionEnv) ''p'' pkgFoo [''p''] None
          [''p'' \<mapsto> pkgFoo]
        = Some (Inr (setError ''p'' (plainError [''p'']
            (''case-insensitive file name collision: '' @ exQuote ''Foo.go'' @ '' and '' @ exQuote ''foo.go''))
            [''p'' \<mapsto> pkgFoo]))"
    using C7_file_collision_stops_loading [OF names clash, of "loadImport 2 fileCollisionEnv" "''p''" "[''p'']"
        "[''p'' \<mapsto> pkgFoo]"]
    unfolding pair q by simp
  then have one: "loadDeps fileCollisionEnv (loadImport 2 fileCollisionEnv) ''p'' pkgFoo [''p''] None
     [''p'' \<mapsto> pkgFoo]
   = Some (Inr [''p'' \<mapsto> pkgFoo\<lparr>Error := Some (plainError [''p'']
        (''case-insensitive file name collision: '' @ exQuote ''Foo.go'' @ '' and '' @ exQuote ''foo.go''))\<rparr>])"
    by (simp add: setError_def deref_def)
  have two: "observe [''p'', ''d''] (packages 3 fileCollisionEnv [''p''] Map.empty)
     = Some (Inr ([''p''], [Some (Some (plainError [''p'']
          (''case-insensitive file name collision: '' @ exQuote ''Foo.go'' @ '' and '' @ exQuote ''foo.go'')),
          False, []), None]))"
    by (simp add: fileCollisionEnv_def ex_defs model_defs)
  from one two show ?thesis by simp
qed

section \<open>What loading leaves of the cache\<close>

lemma reusePackage_fields:
  "build (reusePackage p stk) = build p" "Standard (reusePackage p stk) = Standard p"
  "loadedDeps (reusePackage p stk) = loadedDeps p" "deps (reusePackage p stk) = deps p"
  by (simp_all add: reusePackage_def Let_def split: option.splits)

lemma reused_refl: "reused p p"
  unfolding reused_def by (rule exI [of _ "[]"]) simp

lemma reused_step: "reused p (reusePackage p stk)"
  unfolding reused_def by (rule exI [of _ "[stk]"]) simp

lemma reused_trans: "reused p q \<Longrightarrow> reused q s \<Longrightarrow> reused p s"
  unfolding reused_def by (metis foldl_append)

lemma reused_fields:
  assumes "reused p p'"
  shows "build p' = build p" "Standard p' = Standard p" "loadedDeps p' = loadedDeps p"
    "deps p' = deps p"
proof -
  have "build (foldl reusePackage p stks) = build p \<and> Standard (foldl reusePackage p stks) = Standard p
      \<and> loadedDeps (foldl reusePackage p stks) = loadedDeps p \<and> deps (foldl reusePackage p stks) = deps p"
    for stks
    by (induction stks arbitrary: p) (simp_all add: reusePackage_fields)
  with assms show "build p' = build p" "Standard p' = Standard p" "loadedDeps p' = loadedDeps p"
    "deps p' = deps p"
    by (auto simp: reused_def)
qed

lemma reused_cycle_error:
  assumes "reused p p'" "Error p = Some err" "isImportCycle err"
  shows "p' = p"
  using assms reuse_fold_cycle_error [of p err] by (auto simp: reused_def)

lemma reusePackage_loading: "loading p \<Longrightarrow> loading (reusePackage p stk)"
  by (auto simp: loading_def noCycleError_def reusePackage_def Let_def split: option.splits)

lemma reused_loading:
  assumes "reused p p'" "loading p"
  shows "loading p'"
proof -
  have "loading p \<Longrightarrow> loading (foldl reusePackage p stks)" for stks
    by (induction stks arbitrary: p) (simp_all add: reusePackage_loading)
  with assms show ?thesis by (auto simp: reused_def)
qed

lemma reused_sameIdentity: "reused p p' \<Longrightarrow> sameIdentity p p'"
  by (simp add: sameIdentity_def reused_fields)

lemma sameIdentity_trans: "sameIdentity p q \<Longrightarrow> sameIdentity q s \<Longrightarrow> sameIdentity p s"
  by (simp add: sameIdentity_def)

lemma reusePackage_standard:
  assumes "wellFormed k p" "Standard p"
  shows "reusePackage p stk = p"
  using assms by (simp add: wellFormed_def reusePackage_def)

lemma reused_standard:
  assumes "reused p p'" "wellFormed k p" "Standard p"
  shows "p' = p"
proof -
  have "foldl reusePackage p stks = p" for stks
    using assms(2,3) by (induction stks) (simp_all add: reusePackage_standard)
  with assms(1) show ?thesis by (auto simp: reused_def)
qed

lemma reused_wellFormed:
  assumes "reused p p'" "wellFormed k p"
  shows "wellFormed k p'"
proof (cases "Standard p")
  case True
  with assms show ?thesis using reused_standard by blast
next
  case False
  with assms show ?thesis
    by (auto simp: wellFormed_def stdFlagRight_def reused_fields)
qed

lemma wellFormed_sameIdentity:
  assumes "wellFormed k p" "\<not> Standard p" "sameIdentity p p'"
  shows "wellFormed k p'"
  using assms by (auto simp: wellFormed_def stdFlagRight_def sameIdentity_def)

lemma frame_refl: "frame \<sigma> \<sigma>"
  by (simp add: frame_def reused_refl)

lemma frame_trans: "frame \<sigma> \<sigma>' \<Longrightarrow> frame \<sigma>' \<sigma>'' \<Longrightarrow> frame \<sigma> \<sigma>''"
  unfolding frame_def by (meson reused_trans)

lemma frame_dom: "frame \<sigma> \<sigma>' \<Longrightarrow> dom \<sigma> \<subseteq> dom \<sigma>'"
  unfolding frame_def by blast

lemma frameExcept_refl: "frameExcept r \<sigma> \<sigma>"
  by (simp add: frameExcept_def reused_refl)

lemma frameExcept_trans:
  "frameExcept r \<sigma> \<sigma>' \<Longrightarrow> frameExcept r \<sigma>' \<sigma>'' \<Longrightarrow> frameExcept r \<sigma> \<sigma>''"
  unfolding frameExcept_def by (meson reused_trans)

lemma frame_frameExcept: "frame \<sigma> \<sigma>' \<Longrightarrow> frameExcept r \<sigma> \<sigma>'"
  by (simp add: frame_def frameExcept_def)

lemma frameExcept_upd: "frameExcept r \<sigma> (\<sigma>(r \<mapsto> q))"
  by (simp add: frameExcept_def reused_refl)

lemma frameExcept_fresh: "frameExcept r (\<sigma>(r \<mapsto> q)) \<sigma>' \<Longrightarrow> \<sigma> r = None \<Longrightarrow> frame \<sigma> \<sigma>'"
  unfolding frameExcept_def frame_def by (metis fun_upd_other option.distinct(1))

lemma frame_cacheInv_entry:
  assumes "cacheInv \<sigma>" "wellFormed r q"
  shows "cacheInv (\<sigma>(r \<mapsto> q))"
  using assms by (simp add: cacheInv_def)

text \<open>What the writes of \<open>loadDeps\<close> do to the package it works on.\<close>

lemma setError_entry: "\<sigma> r = Some pa \<Longrightarrow> setError r err \<sigma> = \<sigma>(r \<mapsto> pa\<lparr>Error := Some err\<rparr>)"
  by (simp add: setError_def deref_def)

lemma plain_errors:
  "\<not> isImportCycle (plainError stk msg)" "\<not> isImportCycle (withPos e pos (plainError stk msg))"
  by (simp_all add: plainError_def withPos_def split: list.splits)

lemma loading_setError:
  assumes "loading pa" "\<not> isImportCycle err"
  shows "loading (pa\<lparr>Error := Some err\<rparr>)" "sameIdentity pa (pa\<lparr>Error := Some err\<rparr>)"
  using assms by (simp_all add: loading_def noCycleError_def sameIdentity_def)

lemma recordImport_entry:
  assumes "\<sigma>1 r = Some pa" "loading pa"
  shows "\<exists>pb. recordImport e r p stk i path r1 \<sigma>1 = \<sigma>1(r \<mapsto> pb) \<and> loading pb \<and> sameIdentity pa pb"
proof -
  define err where "err = withPos e (ImportPos (build p) path)
      (plainError stk (''import '' @ fmt_q e path @ '' is a program, not an importable package''))"
  define \<sigma>2 where "\<sigma>2 = (if Name (build (deref \<sigma>1 r1)) = ''main'' then setError r err \<sigma>1 else \<sigma>1)"
  define pm where "pm = (if Name (build (deref \<sigma>1 r1)) = ''main'' then pa\<lparr>Error := Some err\<rparr> else pa)"
  have nc: "\<not> isImportCycle err" by (simp add: err_def plain_errors)
  have s2: "\<sigma>2 = \<sigma>1(r \<mapsto> pm)"
    using assms(1) by (auto simp: \<sigma>2_def pm_def setError_entry)
  have pm: "loading pm" "sameIdentity pa pm"
    using loading_setError [OF assms(2) nc] assms(2) by (auto simp: pm_def sameIdentity_def)
  define pb where "pb = (if i < length (Imports (build p))
      then pm\<lparr>build := (build pm)\<lparr>Imports := (Imports (build pm))[i := ImportPath (build (deref \<sigma>1 r1))]\<rparr>\<rparr>
      else pm)"
  have "recordImport e r p stk i path r1 \<sigma>1 =
          (if i < length (Imports (build p)) then setImport r i (ImportPath (build (deref \<sigma>1 r1))) \<sigma>2 else \<sigma>2)"
    by (simp add: recordImport_def Let_def \<sigma>2_def err_def)
  also have "\<dots> = \<sigma>1(r \<mapsto> pb)"
    by (simp add: s2 pb_def setImport_def deref_def)
  finally have "recordImport e r p stk i path r1 \<sigma>1 = \<sigma>1(r \<mapsto> pb)" .
  moreover have "loading pb" "sameIdentity pa pb"
    using pm by (auto simp: pb_def loading_def noCycleError_def sameIdentity_def)
  ultimately show ?thesis by blast
qed

lemma loadDeps_finish_entry:
  assumes "\<sigma>1 r = Some pa" "loading pa"
  shows "\<exists>pb. loadDeps_finish e r stk dps \<sigma>1 = \<sigma>1(r \<mapsto> pb) \<and> \<not> Standard pb \<and> noCycleError pb
             \<and> sameIdentity pa pb \<and> loadedDeps pb \<and> deps pb = map snd (sort_key fst dps)"
proof -
  define pl where "pl = pa\<lparr>loadedDeps := True, deps := deps pa @ map snd (sort_key fst dps)\<rparr>"
  define \<sigma>3 where "\<sigma>3 = \<sigma>1(r \<mapsto> pl)"
  define err where "err = plainError stk (''case-insensitive import collision: ''
      @ fmt_q e (fst (foldDup e (map fst (sort_key fst dps)))) @ '' and ''
      @ fmt_q e (snd (foldDup e (map fst (sort_key fst dps)))))"
  have pl: "\<not> Standard pl" "noCycleError pl" "sameIdentity pa pl" "loadedDeps pl"
      "deps pl = map snd (sort_key fst dps)"
    using assms(2) by (simp_all add: pl_def loading_def noCycleError_def sameIdentity_def)
  have "loadDeps_finish e r stk dps \<sigma>1 = \<sigma>3 \<or> loadDeps_finish e r stk dps \<sigma>1 = setError r err \<sigma>3"
    using assms(1)
    by (simp add: loadDeps_finish_def Let_def split_beta \<sigma>3_def pl_def deref_def err_def)
  moreover have "setError r err \<sigma>3 = \<sigma>1(r \<mapsto> pl\<lparr>Error := Some err\<rparr>)"
    by (simp add: \<sigma>3_def setError_def deref_def)
  moreover have "\<not> Standard (pl\<lparr>Error := Some err\<rparr>)" "noCycleError (pl\<lparr>Error := Some err\<rparr>)"
      "sameIdentity pa (pl\<lparr>Error := Some err\<rparr>)" "loadedDeps (pl\<lparr>Error := Some err\<rparr>)"
      "deps (pl\<lparr>Error := Some err\<rparr>) = map snd (sort_key fst dps)"
    using pl by (simp_all add: noCycleError_def sameIdentity_def err_def plainError_def)
  ultimately show ?thesis
    using pl unfolding \<sigma>3_def by metis
qed

text \<open>
  The loop of \<open>loadDeps\<close>, over a loader that keeps its contract: the other packages
  are only re-encountered, and the package at \<open>r\<close> stays in the loading state.
\<close>

lemma loadDeps_loop_frame:
  assumes ld: "loaderOK e ld"
    and run: "loadDeps_loop e ld r p stk xs dps \<sigma> = Some (Inr (res, \<sigma>'))"
    and entry: "\<sigma> r = Some pa" "loading pa"
  shows "frameExcept r \<sigma> \<sigma>' \<and> (\<exists>pb. \<sigma>' r = Some pb \<and> loading pb \<and> sameIdentity pa pb)
       \<and> (cacheInv \<sigma> \<longrightarrow> cacheInv \<sigma>') \<and> dom \<sigma> \<subseteq> dom \<sigma>'"
  using run entry
proof (induction xs arbitrary: dps \<sigma> pa)
  case Nil
  then have "\<sigma>' = \<sigma>" by simp
  with Nil show ?case
    by (auto simp: frameExcept_refl sameIdentity_def)
next
  case (Cons x xs)
  obtain i path where x: "x = (i, path)" by (cases x)
  consider (c) "path = ''C''" | (l) "path \<noteq> ''C''" "IsLocalImport path"
    | (g) "path \<noteq> ''C''" "\<not> IsLocalImport path" by blast
  then show ?case
  proof cases
    case c
    with Cons.prems(1) x have "loadDeps_loop e ld r p stk xs dps \<sigma> = Some (Inr (res, \<sigma>'))"
      by simp
    from Cons.IH [OF this Cons.prems(2,3)] show ?thesis .
  next
    case l
    define err where "err = withPos e (ImportPos (build p) path)
        (plainError stk (''local import '' @ fmt_q e path @ '' in non-local package''))"
    have "\<sigma>' = setError r err \<sigma>"
      using Cons.prems(1) x l by (simp add: err_def)
    then have s: "\<sigma>' = \<sigma>(r \<mapsto> pa\<lparr>Error := Some err\<rparr>)"
      using Cons.prems(2) by (simp add: setError_entry)
    have nc: "\<not> isImportCycle err" by (simp add: err_def plain_errors)
    note lo = loading_setError [OF Cons.prems(3) nc]
    have "cacheInv \<sigma> \<Longrightarrow> cacheInv \<sigma>'"
    proof -
      assume inv: "cacheInv \<sigma>"
      then have "wellFormed r pa" using Cons.prems(2) by (simp add: cacheInv_def)
      then have "wellFormed r (pa\<lparr>Error := Some err\<rparr>)"
        using Cons.prems(3) lo(2) wellFormed_sameIdentity by (simp add: loading_def)
      with inv show ?thesis unfolding s by (rule frame_cacheInv_entry)
    qed
    moreover have "frameExcept r \<sigma> \<sigma>'" unfolding s by (rule frameExcept_upd)
    moreover have "dom \<sigma> \<subseteq> dom \<sigma>'" unfolding s by auto
    moreover have "\<sigma>' r = Some (pa\<lparr>Error := Some err\<rparr>)" unfolding s by simp
    ultimately show ?thesis
      using lo by blast
  next
    case g
    let ?call = "ld path (Dir (build p)) (Some p) stk (ImportPos (build p) path) \<sigma>"
    from Cons.prems(1) x g obtain r1 \<sigma>1 where call: "?call = Some (Inr (r1, \<sigma>1))"
      by (auto split: option.splits sum.splits)
    from ld call have fr: "frame \<sigma> \<sigma>1" and inv1: "cacheInv \<sigma> \<longrightarrow> cacheInv \<sigma>1"
      unfolding loaderOK_def by blast+
    from fr Cons.prems(2) obtain p1 where p1: "\<sigma>1 r = Some p1" "reused pa p1"
      by (auto simp: frame_def)
    have lp1: "loading p1" "sameIdentity pa p1"
      using p1(2) Cons.prems(3) by (simp_all add: reused_loading reused_sameIdentity)
    from recordImport_entry [of \<sigma>1 r p1 e p stk i path r1, OF p1(1) lp1(1)] obtain pb where
      pb: "recordImport e r p stk i path r1 \<sigma>1 = \<sigma>1(r \<mapsto> pb)" "loading pb" "sameIdentity p1 pb"
      by blast
    let ?\<sigma>3 = "\<sigma>1(r \<mapsto> pb)"
    have run': "loadDeps_loop e ld r p stk xs (mergeDeps ?\<sigma>3 r1 dps) ?\<sigma>3 = Some (Inr (res, \<sigma>'))"
      using Cons.prems(1) x g call pb(1) by simp
    have e3: "?\<sigma>3 r = Some pb" by simp
    from Cons.IH [OF run' e3 pb(2)] obtain pc where
      ih: "frameExcept r ?\<sigma>3 \<sigma>'" "\<sigma>' r = Some pc" "loading pc" "sameIdentity pb pc"
        "cacheInv ?\<sigma>3 \<longrightarrow> cacheInv \<sigma>'" "dom ?\<sigma>3 \<subseteq> dom \<sigma>'"
      by blast
    have f: "frameExcept r \<sigma> \<sigma>'"
      using frame_frameExcept [OF fr, of r] frameExcept_upd [of r \<sigma>1 pb] ih(1)
      by (blast intro: frameExcept_trans)
    have si: "sameIdentity pa pc"
      using lp1(2) pb(3) ih(4) by (blast intro: sameIdentity_trans)
    have "cacheInv \<sigma> \<Longrightarrow> cacheInv \<sigma>'"
    proof -
      assume "cacheInv \<sigma>"
      with inv1 have i1: "cacheInv \<sigma>1" by simp
      then have "wellFormed r p1" using p1(1) by (simp add: cacheInv_def)
      then have "wellFormed r pb"
        using lp1(1) pb(3) wellFormed_sameIdentity by (simp add: loading_def)
      with i1 have "cacheInv ?\<sigma>3" by (rule frame_cacheInv_entry)
      with ih(5) show ?thesis by simp
    qed
    moreover have "dom \<sigma> \<subseteq> dom \<sigma>'"
      using frame_dom [OF fr] ih(6) by auto
    ultimately show ?thesis
      using f ih(2,3) si by blast
  qed
qed

lemma loadDeps_frame:
  assumes ld: "loaderOK e ld"
    and run: "loadDeps e ld r p stk err \<sigma> = Some (Inr \<sigma>')"
    and entry: "\<sigma> r = Some pa" "loading pa"
  shows "frameExcept r \<sigma> \<sigma>'
       \<and> (\<exists>pb. \<sigma>' r = Some pb \<and> \<not> Standard pb \<and> noCycleError pb \<and> sameIdentity pa pb)
       \<and> dom \<sigma> \<subseteq> dom \<sigma>'"
proof -
  have upd: "frameExcept r \<sigma> (setError r x \<sigma>)
       \<and> (\<exists>pb. setError r x \<sigma> r = Some pb \<and> \<not> Standard pb \<and> noCycleError pb \<and> sameIdentity pa pb)
       \<and> dom \<sigma> \<subseteq> dom (setError r x \<sigma>)" if "\<not> isImportCycle x" for x
  proof -
    have s: "setError r x \<sigma> = \<sigma>(r \<mapsto> pa\<lparr>Error := Some x\<rparr>)"
      using entry(1) by (rule setError_entry)
    have "frameExcept r \<sigma> (setError r x \<sigma>)" unfolding s by (rule frameExcept_upd)
    moreover have "dom \<sigma> \<subseteq> dom (setError r x \<sigma>)" unfolding s by auto
    moreover have "setError r x \<sigma> r = Some (pa\<lparr>Error := Some x\<rparr>)" unfolding s by simp
    ultimately show ?thesis
      using loading_setError [OF entry(2) that] by (auto simp: loading_def)
  qed
  show ?thesis
  proof (cases err)
    case (Some msg)
    then have m: "\<sigma>' = setError r (plainError stk msg) \<sigma>"
      using run by (simp add: loadDeps_def)
    show ?thesis unfolding m by (rule upd) (rule plain_errors(1))
  next
    case None
    show ?thesis
    proof (cases "fst (foldDup e (sourceFiles (build p))) \<noteq> []")
      case True
      then obtain msg where m: "\<sigma>' = setError r (plainError stk msg) \<sigma>"
        using run None by (auto simp: loadDeps_def split_beta)
      show ?thesis unfolding m by (rule upd) (rule plain_errors(1))
    next
      case False
      let ?loop = "loadDeps_loop e ld r p stk (enumerate 0 (importPaths (build p))) [] \<sigma>"
      from run None False obtain res \<sigma>1 where
        loop: "?loop = Some (Inr (res, \<sigma>1))"
        and fin: "\<sigma>' = (case res of None \<Rightarrow> \<sigma>1 | Some dps \<Rightarrow> loadDeps_finish e r stk dps \<sigma>1)"
        by (auto simp: loadDeps_def split_beta split: option.splits sum.splits)
      from loadDeps_loop_frame [OF ld loop entry] obtain pb where
        l: "frameExcept r \<sigma> \<sigma>1" "\<sigma>1 r = Some pb" "loading pb" "sameIdentity pa pb"
          "dom \<sigma> \<subseteq> dom \<sigma>1"
        by blast
      show ?thesis
      proof (cases res)
        case None
        with fin l show ?thesis by (auto simp: loading_def)
      next
        case (Some dps)
        from loadDeps_finish_entry [of \<sigma>1 r pb e stk dps, OF l(2,3)] obtain pc where
          pc: "loadDeps_finish e r stk dps \<sigma>1 = \<sigma>1(r \<mapsto> pc)" "\<not> Standard pc" "noCycleError pc"
            "sameIdentity pb pc"
          by blast
        have s: "\<sigma>' = \<sigma>1(r \<mapsto> pc)" using fin Some pc(1) by simp
        have "frameExcept r \<sigma> \<sigma>'"
          unfolding s using l(1) frameExcept_upd [of r \<sigma>1 pc] by (blast intro: frameExcept_trans)
        moreover have "sameIdentity pa pc"
          using l(4) pc(4) by (blast intro: sameIdentity_trans)
        moreover have "dom \<sigma> \<subseteq> dom \<sigma>'" using l(5) s by auto
        ultimately show ?thesis using pc(2,3) s by auto
      qed
    qed
  qed
qed

lemma loadDeps_cacheInv:
  assumes ld: "loaderOK e ld"
    and run: "loadDeps e ld r p stk err \<sigma> = Some (Inr \<sigma>')"
    and entry: "\<sigma> r = Some pa" "loading pa"
    and inv: "cacheInv \<sigma>"
  shows "cacheInv \<sigma>'"
proof -
  have wf: "wellFormed r pa" using inv entry(1) by (simp add: cacheInv_def)
  have ns: "\<not> Standard pa" using entry(2) by (simp add: loading_def)
  have upd: "cacheInv (setError r x \<sigma>)" for x
  proof -
    have "wellFormed r (pa\<lparr>Error := Some x\<rparr>)"
      using wf ns by (auto simp: wellFormed_def stdFlagRight_def)
    moreover have "setError r x \<sigma> = \<sigma>(r \<mapsto> pa\<lparr>Error := Some x\<rparr>)"
      using entry(1) by (rule setError_entry)
    ultimately show ?thesis
      using inv by (simp add: frame_cacheInv_entry)
  qed
  show ?thesis
  proof (cases err)
    case (Some msg)
    then show ?thesis using run upd by (auto simp: loadDeps_def)
  next
    case None
    show ?thesis
    proof (cases "fst (foldDup e (sourceFiles (build p))) \<noteq> []")
      case True
      then show ?thesis using run None upd by (auto simp: loadDeps_def split_beta)
    next
      case False
      let ?loop = "loadDeps_loop e ld r p stk (enumerate 0 (importPaths (build p))) [] \<sigma>"
      from run None False obtain res \<sigma>1 where
        loop: "?loop = Some (Inr (res, \<sigma>1))"
        and fin: "\<sigma>' = (case res of None \<Rightarrow> \<sigma>1 | Some dps \<Rightarrow> loadDeps_finish e r stk dps \<sigma>1)"
        by (auto simp: loadDeps_def split_beta split: option.splits sum.splits)
      from loadDeps_loop_frame [OF ld loop entry] inv obtain pb where
        l: "\<sigma>1 r = Some pb" "loading pb" "sameIdentity pa pb" "cacheInv \<sigma>1"
        by blast
      show ?thesis
      proof (cases res)
        case None
        with fin l show ?thesis by simp
      next
        case (Some dps)
        from loadDeps_finish_entry [of \<sigma>1 r pb e stk dps, OF l(1,2)] obtain pc where
          pc: "loadDeps_finish e r stk dps \<sigma>1 = \<sigma>1(r \<mapsto> pc)" "\<not> Standard pc" "sameIdentity pb pc"
          by blast
        have "wellFormed r pb" using l(1,4) by (simp add: cacheInv_def)
        then have "wellFormed r pc"
          using l(2) pc(3) wellFormed_sameIdentity by (simp add: loading_def)
        with l(4) have "cacheInv (\<sigma>1(r \<mapsto> pc))" by (rule frame_cacheInv_entry)
        then show ?thesis using fin Some pc(1) by simp
      qed
    qed
  qed
qed

lemma importPackage_new:
  assumes "importPackage e ip vs srcDir = (p, err)"
  shows "wellFormed ip p" "Error p = None" "deps p = []" "\<not> loadedDeps p"
    "\<not> Standard p \<Longrightarrow> loading p"
  using assms
  by (auto simp: importPackage_def newPackage_def copyBuild_def Let_def split_beta
      wellFormed_def stdFlagRight_def loading_def noCycleError_def)

lemma setPos_entry:
  assumes "\<sigma>2 r = Some pb"
  shows "\<exists>pc. setPos e r pos \<sigma>2 = \<sigma>2(r \<mapsto> pc) \<and> sameIdentity pb pc
             \<and> (noCycleError pb \<longrightarrow> noCycleError pc)
             \<and> loadedDeps pc = loadedDeps pb \<and> deps pc = deps pb"
proof (cases "\<exists>perr p0 rest. Error pb = Some perr \<and> pos = p0 # rest")
  case True
  then obtain perr p0 rest where c: "Error pb = Some perr" "pos = p0 # rest" by blast
  let ?x = "perr\<lparr>Pos := Position_String e (p0\<lparr>Filename := shortPath e (Filename p0)\<rparr>)\<rparr>"
  have "setPos e r pos \<sigma>2 = \<sigma>2(r \<mapsto> pb\<lparr>Error := Some ?x\<rparr>)"
    using assms c by (simp add: setPos_def deref_def setError_def)
  moreover have "sameIdentity pb (pb\<lparr>Error := Some ?x\<rparr>)"
    "noCycleError pb \<longrightarrow> noCycleError (pb\<lparr>Error := Some ?x\<rparr>)"
    using c by (simp_all add: sameIdentity_def noCycleError_def)
  ultimately show ?thesis by force
next
  case False
  then have "setPos e r pos \<sigma>2 = \<sigma>2"
    using assms by (auto simp: setPos_def deref_def split: option.splits list.splits)
  then have "setPos e r pos \<sigma>2 = \<sigma>2(r \<mapsto> pb)"
    using assms by (simp add: fun_upd_idem)
  then show ?thesis by (force simp: sameIdentity_def)
qed

text \<open>
  The loader keeps the contract that it relies on, for every recursion budget.
\<close>

lemma loadImport_ok: "loaderOK e (loadImport n e)"
proof (induction n)
  case 0
  show ?case by (simp add: loaderOK_def)
next
  case (Suc n)
  show ?case
    unfolding loaderOK_def
  proof (intro allI impI)
    fix path srcDir parent stk pos \<sigma> r1 \<sigma>1
    assume run: "loadImport (Suc n) e path srcDir parent stk pos \<sigma> = Some (Inr (r1, \<sigma>1))"
    then obtain ip vs where v: "vendoredImportPath e parent path = Inr (ip, vs)"
      by (auto split: sum.splits)
    have goal: "frame \<sigma> \<sigma>1 \<and> r1 \<in> dom \<sigma>1 \<and> (cacheInv \<sigma> \<longrightarrow> cacheInv \<sigma>1) \<and> r1 = ip"
    proof (cases "\<sigma> ip")
      case (Some p)
      with run v have r: "r1 = ip" "\<sigma>1 = \<sigma>(ip \<mapsto> reusePackage p (stk @ [path]))"
        by auto
      have "frame \<sigma> \<sigma>1"
        unfolding frame_def r(2) using Some reused_step reused_refl by auto
      moreover have "cacheInv \<sigma> \<Longrightarrow> cacheInv \<sigma>1"
      proof -
        assume inv: "cacheInv \<sigma>"
        then have "wellFormed ip p" using Some by (simp add: cacheInv_def)
        then have "wellFormed ip (reusePackage p (stk @ [path]))"
          using reused_step reused_wellFormed by blast
        with inv show ?thesis unfolding r(2) by (rule frame_cacheInv_entry)
      qed
      ultimately show ?thesis using r by auto
    next
      case None
      obtain p err where ip: "importPackage e ip vs srcDir = (p, err)" by force
      note new = importPackage_new [OF ip]
      show ?thesis
      proof (cases "Standard p")
        case True
        with run v None ip have r: "r1 = ip" "\<sigma>1 = \<sigma>(ip \<mapsto> p)" by auto
        have "frame \<sigma> \<sigma>1"
          unfolding r(2) using None frameExcept_refl [of ip "\<sigma>(ip \<mapsto> p)"]
          by (rule frameExcept_fresh [rotated])
        moreover have "cacheInv \<sigma> \<Longrightarrow> cacheInv \<sigma>1"
          unfolding r(2) using new(1) by (simp add: frame_cacheInv_entry)
        ultimately show ?thesis using r by auto
      next
        case False
        let ?\<sigma>0 = "\<sigma>(ip \<mapsto> p)"
        from run v None ip False obtain \<sigma>2 where
          ld: "loadDeps e (loadImport n e) ip p (stk @ [path]) err ?\<sigma>0 = Some (Inr \<sigma>2)"
          and r: "r1 = ip" "\<sigma>1 = setPos e ip pos \<sigma>2"
          by (auto split: option.splits sum.splits)
        have e0: "?\<sigma>0 ip = Some p" by simp
        note lo = new(5) [OF False]
        from loadDeps_frame [OF Suc.IH ld e0 lo] obtain pb where
          f: "frameExcept ip ?\<sigma>0 \<sigma>2" "\<sigma>2 ip = Some pb" "\<not> Standard pb" "sameIdentity p pb"
          by blast
        from setPos_entry [of \<sigma>2 ip pb e pos, OF f(2)] obtain pc where
          pc: "\<sigma>1 = \<sigma>2(ip \<mapsto> pc)" "sameIdentity pb pc"
          unfolding r(2) by blast
        have "frameExcept ip ?\<sigma>0 \<sigma>1"
          unfolding pc(1) using f(1) frameExcept_upd [of ip \<sigma>2 pc] by (blast intro: frameExcept_trans)
        then have "frame \<sigma> \<sigma>1" using None by (rule frameExcept_fresh)
        moreover have "cacheInv \<sigma> \<Longrightarrow> cacheInv \<sigma>1"
        proof -
          assume "cacheInv \<sigma>"
          then have "cacheInv ?\<sigma>0" using new(1) by (rule frame_cacheInv_entry)
          then have i2: "cacheInv \<sigma>2" by (rule loadDeps_cacheInv [OF Suc.IH ld e0 lo])
          then have "wellFormed ip pb" using f(2) by (simp add: cacheInv_def)
          then have "wellFormed ip pc" using f(3) pc(2) by (rule wellFormed_sameIdentity)
          with i2 show ?thesis unfolding pc(1) by (rule frame_cacheInv_entry)
        qed
        ultimately show ?thesis using r(1) pc(1) by auto
      qed
    qed
    with v show "frame \<sigma> \<sigma>1 \<and> r1 \<in> dom \<sigma>1 \<and> (cacheInv \<sigma> \<longrightarrow> cacheInv \<sigma>1)
        \<and> (\<exists>vs. vendoredImportPath e parent path = Inr (r1, vs))"
      by auto
  qed
qed

lemma loadImport_frame:
  assumes "loadImport n e path srcDir parent stk pos \<sigma> = Some (Inr (r1, \<sigma>1))"
  shows "frame \<sigma> \<sigma>1" "r1 \<in> dom \<sigma>1" "cacheInv \<sigma> \<Longrightarrow> cacheInv \<sigma>1"
    "\<exists>vs. vendoredImportPath e parent path = Inr (r1, vs)"
  using loadImport_ok [of e n] assms unfolding loaderOK_def by blast+

lemma packages_loop_frame:
  assumes "packages_loop n e args seen pkgs \<sigma> = Some (Inr (rs, \<sigma>'))" "set pkgs \<subseteq> dom \<sigma>"
  shows "frame \<sigma> \<sigma>' \<and> (cacheInv \<sigma> \<longrightarrow> cacheInv \<sigma>') \<and> set rs \<subseteq> dom \<sigma>'"
  using assms
proof (induction args arbitrary: seen pkgs \<sigma>)
  case Nil
  then show ?case by (auto simp: frame_refl)
next
  case (Cons arg args)
  show ?case
  proof (cases "arg \<in> set seen")
    case True
    with Cons.prems have "packages_loop n e args seen pkgs \<sigma> = Some (Inr (rs, \<sigma>'))" by simp
    from Cons.IH [OF this Cons.prems(2)] show ?thesis .
  next
    case False
    with Cons.prems(1) obtain r \<sigma>1 where
      load: "loadPackage n e arg [] \<sigma> = Some (Inr (r, \<sigma>1))"
      and rest: "packages_loop n e args (arg # seen) (pkgs @ [r]) \<sigma>1 = Some (Inr (rs, \<sigma>'))"
      by (auto split: option.splits sum.splits)
    from load obtain arg1 where "loadImport n e arg1 (cwd e) None [] [] \<sigma> = Some (Inr (r, \<sigma>1))"
      by (auto simp: loadPackage_def Let_def)
    note li = loadImport_frame [OF this]
    have "set (pkgs @ [r]) \<subseteq> dom \<sigma>1"
      using Cons.prems(2) li(2) frame_dom [OF li(1)] by auto
    from Cons.IH [OF rest this] li(1,3) show ?thesis
      by (auto intro: frame_trans)
  qed
qed

lemma packages_frame:
  assumes "packages n e args \<sigma> = Some (Inr (rs, \<sigma>'))"
  shows "frame \<sigma> \<sigma>'" "cacheInv \<sigma> \<Longrightarrow> cacheInv \<sigma>'" "set rs \<subseteq> dom \<sigma>'"
  using packages_loop_frame [of n e args "[]" "[]" \<sigma> rs \<sigma>'] assms
  by (auto simp: packages_def)

section \<open>The standard-library flag\<close>

lemma sublist_single: "sublist [c] xs \<longleftrightarrow> c \<in> set xs"
  by (induction xs) (auto simp: sublist_Cons_right)

lemma copyBuild_Standard:
  "Standard (copyBuild p pp) \<longleftrightarrow>
     Goroot pp \<and> ImportPath pp \<noteq> [] \<and> CHR ''.'' \<notin> set (ImportPath pp)"
  using sublist_single [of "CHR ''.''" "ImportPath pp"] by (simp add: copyBuild_def)

lemma stdFlagRight_iff:
  "stdFlagRight p \<longleftrightarrow>
     (Standard p \<longleftrightarrow> Goroot (build p) \<and> ImportPath (build p) \<noteq> []
                      \<and> CHR ''.'' \<notin> set (ImportPath (build p)))"
  using sublist_single [of "CHR ''.''" "ImportPath (build p)"] by (simp add: stdFlagRight_def)

lemma loadImport_standard:
  assumes "vendoredImportPath e parent path = Inr (ip, vs)" "\<sigma> ip = None"
    and "importPackage e ip vs srcDir = (p, err)" "Standard p"
  shows "loadImport (Suc n) e path srcDir parent stk pos \<sigma> = Some (Inr (ip, \<sigma>(ip \<mapsto> p)))"
  using assms by simp

text \<open>
  Claim C9. \<^verbatim>\<open>copyBuild\<close> sets the flag if and only if the loader's \<^verbatim>\<open>Goroot\<close> flag is set
  (the package was found under the Go root) and the import path is not empty and
  has no \<^verbatim>\<open>.\<close> in it. Loading keeps every cached package well formed: its flag is the
  one \<^verbatim>\<open>copyBuild\<close> computes from it, and a flagged package has no dependencies, is
  not marked loaded and has no error; this holds for every package of a run of
  \<open>packages\<close> from the empty cache. When \<^verbatim>\<open>loadImport\<close> meets a new package that gets
  the flag, it returns it at once: the result is the cache with that one package
  added, for every recursion budget, also the one that allows no further call.
\<close>

theorem C9_standard_flag_and_immediate_return:
  "(Standard (copyBuild p0 pp) \<longleftrightarrow>
      Goroot pp \<and> ImportPath pp \<noteq> [] \<and> CHR ''.'' \<notin> set (ImportPath pp))
   \<and> (cacheInv \<sigma> \<and> loadImport n e path srcDir parent stk pos \<sigma> = Some (Inr (r1, \<sigma>1))
        \<longrightarrow> cacheInv \<sigma>1)
   \<and> (packages n e args Map.empty = Some (Inr (rs, \<sigma>')) \<and> \<sigma>' k = Some q
        \<longrightarrow> (Standard q \<longleftrightarrow> Goroot (build q) \<and> ImportPath (build q) \<noteq> []
                              \<and> CHR ''.'' \<notin> set (ImportPath (build q)))
            \<and> (Standard q \<longrightarrow> deps q = [] \<and> \<not> loadedDeps q \<and> Error q = None))
   \<and> (vendoredImportPath e parent path = Inr (ip, vs) \<and> \<sigma> ip = None
        \<and> importPackage e ip vs srcDir = (p, err) \<and> Standard p
        \<longrightarrow> loadImport (Suc m) e path srcDir parent stk pos \<sigma> = Some (Inr (ip, \<sigma>(ip \<mapsto> p)))
            \<and> deps p = [] \<and> \<not> loadedDeps p)"
proof (intro conjI impI)
  show "Standard (copyBuild p0 pp) \<longleftrightarrow>
      Goroot pp \<and> ImportPath pp \<noteq> [] \<and> CHR ''.'' \<notin> set (ImportPath pp)"
    by (rule copyBuild_Standard)
next
  assume "cacheInv \<sigma> \<and> loadImport n e path srcDir parent stk pos \<sigma> = Some (Inr (r1, \<sigma>1))"
  then show "cacheInv \<sigma>1" using loadImport_frame(3) by blast
next
  assume a: "packages n e args Map.empty = Some (Inr (rs, \<sigma>')) \<and> \<sigma>' k = Some q"
  have "cacheInv Map.empty" by (simp add: cacheInv_def)
  with a have "cacheInv \<sigma>'" using packages_frame(2) by blast
  with a have wf: "wellFormed k q" by (simp add: cacheInv_def)
  then show "Standard q \<longleftrightarrow> Goroot (build q) \<and> ImportPath (build q) \<noteq> []
                              \<and> CHR ''.'' \<notin> set (ImportPath (build q))"
    using stdFlagRight_iff [of q] by (simp add: wellFormed_def)
  assume "Standard q"
  with wf show "deps q = []" "\<not> loadedDeps q" "Error q = None"
    by (simp_all add: wellFormed_def)
next
  assume a: "vendoredImportPath e parent path = Inr (ip, vs) \<and> \<sigma> ip = None
        \<and> importPackage e ip vs srcDir = (p, err) \<and> Standard p"
  then show "loadImport (Suc m) e path srcDir parent stk pos \<sigma> = Some (Inr (ip, \<sigma>(ip \<mapsto> p)))"
    using loadImport_standard by blast
  from a show "deps p = []" "\<not> loadedDeps p"
    using importPackage_new(3,4) by blast+
qed

text \<open>
  \<open>p\<close> imports \<^verbatim>\<open>fmt\<close>: with a budget of one call, \<^verbatim>\<open>fmt\<close> is returned flagged and without
  dependencies; in the run from \<open>p\<close> its import \<^verbatim>\<open>io\<close> never enters the cache.
\<close>

theorem C9_standard_flag_and_immediate_return_witness:
  "loadImport (Suc 0) stdEnv ''fmt'' ''/g/src/p'' None [''p''] [] Map.empty
     = Some (Inr (''fmt'', [''fmt'' \<mapsto> newPackage fmtBP]))
   \<and> Standard (newPackage fmtBP) \<and> deps (newPackage fmtBP) = []
   \<and> observe [''p'', ''fmt'', ''io''] (packages 3 stdEnv [''p''] Map.empty)
       = Some (Inr ([''p''], [Some (None, True, []), Some (None, False, []), None]))"
proof -
  have v: "vendoredImportPath stdEnv None ''fmt'' = Inr (''fmt'', [])"
    by (simp add: vendoredImportPath_def)
  have i: "importPackage stdEnv ''fmt'' [] ''/g/src/p'' = (newPackage fmtBP, None)"
    by (simp add: stdEnv_def fmtBP_def ex_defs model_defs)
  have s: "Standard (newPackage fmtBP)"
    by (simp add: fmtBP_def ex_defs model_defs)
  have "loadImport (Suc 0) stdEnv ''fmt'' ''/g/src/p'' None [''p''] [] Map.empty
          = Some (Inr (''fmt'', [''fmt'' \<mapsto> newPackage fmtBP]))
        \<and> deps (newPackage fmtBP) = []"
    using C9_standard_flag_and_immediate_return
      [where e = stdEnv and path = "''fmt''" and srcDir = "''/g/src/p''" and parent = None
         and stk = "[''p'']" and pos = "[]" and \<sigma> = Map.empty and ip = "''fmt''" and vs = "[]"
         and p = "newPackage fmtBP" and err = None and m = 0]
      v i s
    by blast
  moreover have "observe [''p'', ''fmt'', ''io''] (packages 3 stdEnv [''p''] Map.empty)
       = Some (Inr ([''p''], [Some (None, True, []), Some (None, False, []), None]))"
    by (simp add: stdEnv_def fmtBP_def ex_defs model_defs)
  ultimately show ?thesis using s by simp
qed

section \<open>Failed imports and their siblings\<close>











section \<open>The collision check over the dependency paths\<close>

lemma mergeDeps_distinct:
  assumes "distinct (map fst dps)"
  shows "distinct (map fst (mergeDeps \<sigma> r1 dps))"
proof -
  have "distinct (map fst d) \<Longrightarrow>
        distinct (map fst (foldl (\<lambda>d dep. AList.update (ImportPath (build (deref \<sigma> dep))) dep d) d ds))"
    for d :: "(string \<times> ref) list" and ds
    by (induction ds arbitrary: d) (simp_all add: distinct_update)
  with assms show ?thesis
    by (simp add: mergeDeps_def Let_def distinct_update)
qed

lemma loadDeps_loop_distinct:
  assumes "loadDeps_loop e ld r p stk xs dps \<sigma> = Some (Inr (Some dps', \<sigma>'))"
    and "distinct (map fst dps)"
  shows "distinct (map fst dps')"
  using assms
proof (induction xs arbitrary: dps \<sigma>)
  case Nil
  then show ?case by simp
next
  case (Cons x xs)
  obtain i path where x: "x = (i, path)" by (cases x)
  show ?case
  proof (cases "path = ''C''")
    case True
    with Cons.prems x have "loadDeps_loop e ld r p stk xs dps \<sigma> = Some (Inr (Some dps', \<sigma>'))"
      by simp
    from Cons.IH [OF this Cons.prems(2)] show ?thesis .
  next
    case False
    have nl: "\<not> IsLocalImport path"
      using Cons.prems(1) x False by (auto split: if_splits)
    let ?call = "ld path (Dir (build p)) (Some p) stk (ImportPos (build p) path) \<sigma>"
    from Cons.prems(1) x False nl obtain r1 \<sigma>1 where call: "?call = Some (Inr (r1, \<sigma>1))"
      by (auto split: option.splits sum.splits)
    let ?\<sigma>3 = "recordImport e r p stk i path r1 \<sigma>1"
    have run': "loadDeps_loop e ld r p stk xs (mergeDeps ?\<sigma>3 r1 dps) ?\<sigma>3 = Some (Inr (Some dps', \<sigma>'))"
      using Cons.prems(1) x False nl call by simp
    from Cons.IH [OF run' mergeDeps_distinct [OF Cons.prems(2)]] show ?thesis .
  qed
qed

lemma sorted_dps_paths:
  "sorted (map fst (sort_key fst dps))"
  "distinct (map fst (sort_key fst dps)) \<longleftrightarrow> distinct (map fst dps)"
  "set (map fst (sort_key fst dps)) = fst ` set dps"
  "set (map snd (sort_key fst dps)) = snd ` set dps"
proof -
  show "sorted (map fst (sort_key fst dps))" by (rule sorted_sort_key)
  have "mset (map fst (sort_key fst dps)) = mset (map fst dps)" by simp
  then show "distinct (map fst (sort_key fst dps)) \<longleftrightarrow> distinct (map fst dps)"
    by (rule mset_eq_imp_distinct_iff)
  show "set (map fst (sort_key fst dps)) = fst ` set dps" by simp
  show "set (map snd (sort_key fst dps)) = snd ` set dps" by simp
qed

text \<open>
  The part of \<open>loadDeps\<close> after the loop: the package is marked loaded, gets the
  packages of the map in the order of their paths, and the collision check runs
  if and only if none of them carries an error.
\<close>

lemma loadDeps_finish_result:
  fixes e r stk dps \<tau>
  defines "depPaths \<equiv> map fst (sort_key fst dps)"
  defines "\<sigma>' \<equiv> loadDeps_finish e r stk dps \<tau>"
  defines "clean \<equiv> list_all (\<lambda>d. Error (deref \<tau> d) = None) (map snd dps)"
  shows "loadedDeps (deref \<sigma>' r)"
    and "deps (deref \<sigma>' r) = deps (deref \<tau> r) @ map snd (sort_key fst dps)"
    and "clean \<Longrightarrow> fst (foldDup e depPaths) \<noteq> [] \<Longrightarrow>
           Error (deref \<sigma>' r) =
             Some (plainError stk (''case-insensitive import collision: ''
                @ fmt_q e (fst (foldDup e depPaths)) @ '' and '' @ fmt_q e (snd (foldDup e depPaths))))"
    and "\<not> clean \<or> fst (foldDup e depPaths) = [] \<Longrightarrow> Error (deref \<sigma>' r) = Error (deref \<tau> r)"
    and "k \<noteq> r \<Longrightarrow> \<sigma>' k = \<tau> k"
proof -
  define pl where "pl = (deref \<tau> r)\<lparr>loadedDeps := True,
      deps := deps (deref \<tau> r) @ map snd (sort_key fst dps)\<rparr>"
  define \<sigma>3 where "\<sigma>3 = \<tau>(r \<mapsto> pl)"
  have err3: "Error (deref \<sigma>3 d) = Error (deref \<tau> d)" for d
    by (simp add: \<sigma>3_def pl_def deref_def)
  have eq3: "(\<tau>(r \<mapsto> (deref \<tau> r)\<lparr>loadedDeps := True\<rparr>))
        (r \<mapsto> (deref (\<tau>(r \<mapsto> (deref \<tau> r)\<lparr>loadedDeps := True\<rparr>)) r)
           \<lparr>deps := deps (deref (\<tau>(r \<mapsto> (deref \<tau> r)\<lparr>loadedDeps := True\<rparr>)) r)
                     @ map snd (sort_key fst dps)\<rparr>) = \<sigma>3"
    by (simp add: \<sigma>3_def pl_def deref_def)
  have unfold: "\<sigma>' = (if List.map_filter (\<lambda>p1. Error (deref \<sigma>3 p1)) (map snd (sort_key fst dps)) = []
                        \<and> fst (foldDup e depPaths) \<noteq> []
      then setError r (plainError stk (''case-insensitive import collision: ''
                @ fmt_q e (fst (foldDup e depPaths)) @ '' and '' @ fmt_q e (snd (foldDup e depPaths)))) \<sigma>3
      else \<sigma>3)"
    unfolding \<sigma>'_def loadDeps_finish_def Let_def split_beta eq3 depPaths_def ..
  have "List.map_filter (\<lambda>p1. Error (deref \<sigma>3 p1)) (map snd (sort_key fst dps)) = [] \<longleftrightarrow> clean"
    unfolding clean_def err3 list_all_iff
    by (auto simp: List.map_filter_def filter_empty_conv)
  with unfold have fin: "\<sigma>' = (if clean \<and> fst (foldDup e depPaths) \<noteq> []
      then setError r (plainError stk (''case-insensitive import collision: ''
                @ fmt_q e (fst (foldDup e depPaths)) @ '' and '' @ fmt_q e (snd (foldDup e depPaths)))) \<sigma>3
      else \<sigma>3)"
    by simp
  show "loadedDeps (deref \<sigma>' r)"
    by (simp add: fin setError_def deref_def \<sigma>3_def pl_def)
  show "deps (deref \<sigma>' r) = deps (deref \<tau> r) @ map snd (sort_key fst dps)"
    by (simp add: fin setError_def deref_def \<sigma>3_def pl_def)
  show "clean \<Longrightarrow> fst (foldDup e depPaths) \<noteq> [] \<Longrightarrow>
           Error (deref \<sigma>' r) =
             Some (plainError stk (''case-insensitive import collision: ''
                @ fmt_q e (fst (foldDup e depPaths)) @ '' and '' @ fmt_q e (snd (foldDup e depPaths))))"
    by (simp add: fin setError_def deref_def)
  show "\<not> clean \<or> fst (foldDup e depPaths) = [] \<Longrightarrow> Error (deref \<sigma>' r) = Error (deref \<tau> r)"
    by (auto simp: fin \<sigma>3_def pl_def deref_def)
  show "k \<noteq> r \<Longrightarrow> \<sigma>' k = \<tau> k"
    by (simp add: fin setError_def \<sigma>3_def)
qed

lemma loadImport_cached:
  assumes "vendoredImportPath e parent path = Inr (ip, vs)" "\<sigma> ip = Some q"
  shows "loadImport (Suc n) e path srcDir parent stk pos \<sigma> =
           Some (Inr (ip, \<sigma>(ip \<mapsto> reusePackage q (stk @ [path]))))"
  using assms by simp

text \<open>
  Claim C8, as stated, has every pair of dependency paths that are equal under
  case folding recorded as the package's error. The check is skipped when a
  dependency carries an error: \<open>p\<close> imports \<^verbatim>\<open>D\<close> and \<^verbatim>\<open>d\<close>, \<^verbatim>\<open>d\<close> cannot be found, and
  after the run \<open>p\<close> is loaded with the dependencies \<^verbatim>\<open>D\<close> and \<^verbatim>\<open>d\<close> and has no error.
\<close>

theorem C8_dependency_error_counterexample:
  "observe [''p''] (packages 3 depCollisionEnv [''p''] Map.empty)
     = Some (Inr ([''p''], [Some (None, True, [''D'', ''d''])]))
   \<and> toFold depCollisionEnv ''D'' = toFold depCollisionEnv ''d''"
  by (simp add: depCollisionEnv_def ex_defs model_defs)

text \<open>
  Claim C8, amended. When the metadata was read, the file names do not collide and
  the loop over the imports has run to its end with the map \<open>dps\<close>, \<open>loadDeps\<close>
  returns with the package marked loaded and its dependency list extended by the
  packages of \<open>dps\<close> in the order of their paths; these paths are sorted and free of
  duplicates. The collision check over them runs only if none of these
  dependencies carries an error: then, if two of the (non-empty) paths are equal
  under case folding, the package's error becomes the collision error for the
  pair that \<open>foldDup\<close> reports, replacing any error it had. If a dependency carries
  an error, or no two paths collide, the package's error stays as the loop left it.
  A package found in the cache is not checked again: \<open>loadImport\<close> only reuses it.
\<close>

theorem C8_dependency_collision_check:
  assumes nofile: "fst (foldDup e (sourceFiles (build p))) = []"
    and loop: "loadDeps_loop e ld r p stk (enumerate 0 (importPaths (build p))) [] \<sigma>
                 = Some (Inr (Some dps, \<sigma>1))"
  shows "\<exists>\<sigma>'. loadDeps e ld r p stk None \<sigma> = Some (Inr \<sigma>')
       \<and> loadedDeps (deref \<sigma>' r)
       \<and> deps (deref \<sigma>' r) = deps (deref \<sigma>1 r) @ map snd (sort_key fst dps)
       \<and> sorted (map fst (sort_key fst dps)) \<and> distinct (map fst (sort_key fst dps))
       \<and> (list_all (\<lambda>d. Error (deref \<sigma>1 d) = None) (map snd dps)
            \<and> list_all (\<lambda>s. s \<noteq> []) (map fst dps)
            \<and> \<not> distinct (map (toFold e) (map fst (sort_key fst dps)))
          \<longrightarrow> Error (deref \<sigma>' r) =
                Some (plainError stk (''case-insensitive import collision: ''
                  @ fmt_q e (fst (foldDup e (map fst (sort_key fst dps)))) @ '' and ''
                  @ fmt_q e (snd (foldDup e (map fst (sort_key fst dps))))))
              \<and> fst (foldDup e (map fst (sort_key fst dps))) \<in> fst ` set dps
              \<and> snd (foldDup e (map fst (sort_key fst dps))) \<in> fst ` set dps
              \<and> toFold e (fst (foldDup e (map fst (sort_key fst dps))))
                  = toFold e (snd (foldDup e (map fst (sort_key fst dps)))))
       \<and> (\<not> list_all (\<lambda>d. Error (deref \<sigma>1 d) = None) (map snd dps)
          \<longrightarrow> Error (deref \<sigma>' r) = Error (deref \<sigma>1 r))
       \<and> (list_all (\<lambda>s. s \<noteq> []) (map fst dps)
            \<and> distinct (map (toFold e) (map fst (sort_key fst dps)))
          \<longrightarrow> Error (deref \<sigma>' r) = Error (deref \<sigma>1 r))
       \<and> (vendoredImportPath e parent path = Inr (ip, vs) \<and> \<sigma>' ip = Some q
          \<longrightarrow> loadImport (Suc n) e path srcDir parent stk0 pos \<sigma>' =
                Some (Inr (ip, \<sigma>'(ip \<mapsto> reusePackage q (stk0 @ [path])))))"
proof -
  let ?paths = "map fst (sort_key fst dps)"
  let ?\<sigma>' = "loadDeps_finish e r stk dps \<sigma>1"
  note fin = loadDeps_finish_result [where e = e and r = r and stk = stk and dps = dps and \<tau> = \<sigma>1]
  have ret: "loadDeps e ld r p stk None \<sigma> = Some (Inr ?\<sigma>')"
    using nofile loop by (simp add: loadDeps_def split_beta)
  have "distinct (map fst dps)"
    using loadDeps_loop_distinct [OF loop] by simp
  then have paths: "sorted ?paths" "distinct ?paths"
    using sorted_dps_paths(1,2) [of dps] by simp_all
  have names: "\<forall>s \<in> set ?paths. s \<noteq> []" if "list_all (\<lambda>s. s \<noteq> []) (map fst dps)"
    using that sorted_dps_paths(3) [of dps] by (auto simp: list_all_iff)
  have hit: "Error (deref ?\<sigma>' r) =
                Some (plainError stk (''case-insensitive import collision: ''
                  @ fmt_q e (fst (foldDup e ?paths)) @ '' and '' @ fmt_q e (snd (foldDup e ?paths))))
              \<and> fst (foldDup e ?paths) \<in> fst ` set dps
              \<and> snd (foldDup e ?paths) \<in> fst ` set dps
              \<and> toFold e (fst (foldDup e ?paths)) = toFold e (snd (foldDup e ?paths))"
    if a: "list_all (\<lambda>d. Error (deref \<sigma>1 d) = None) (map snd dps)
            \<and> list_all (\<lambda>s. s \<noteq> []) (map fst dps) \<and> \<not> distinct (map (toFold e) ?paths)"
  proof -
    have found: "fst (foldDup e ?paths) \<noteq> []"
      using foldDup_none_iff [of ?paths e] names a by blast
    from fin(3) [OF _ found] a foldDup_pair [OF found] sorted_dps_paths(3) [of dps]
    show ?thesis by auto
  qed
  have skip: "Error (deref ?\<sigma>' r) = Error (deref \<sigma>1 r)"
    if "\<not> list_all (\<lambda>d. Error (deref \<sigma>1 d) = None) (map snd dps)"
    using fin(4) that by blast
  have none: "Error (deref ?\<sigma>' r) = Error (deref \<sigma>1 r)"
    if a: "list_all (\<lambda>s. s \<noteq> []) (map fst dps) \<and> distinct (map (toFold e) ?paths)"
  proof -
    have "fst (foldDup e ?paths) = []"
      using foldDup_none_iff [of ?paths e] names a by blast
    with fin(4) show ?thesis by blast
  qed
  have cached: "loadImport (Suc n) e path srcDir parent stk0 pos ?\<sigma>' =
                Some (Inr (ip, ?\<sigma>'(ip \<mapsto> reusePackage q (stk0 @ [path]))))"
    if "vendoredImportPath e parent path = Inr (ip, vs) \<and> ?\<sigma>' ip = Some q"
    using that loadImport_cached by blast
  show ?thesis
    using ret fin(1,2) paths hit skip none cached by blast
qed

text \<open>
  \<open>p\<close> imports \<^verbatim>\<open>D\<close> and \<^verbatim>\<open>d\<close> and both load without error: the collision is recorded
  on \<open>p\<close>.
\<close>

theorem C8_dependency_collision_check_witness:
  "errorAfter (loadDeps depCollisionEnv2 (loadImport 2 depCollisionEnv2) ''p'' pkgDd [''p''] None
       [''p'' \<mapsto> pkgDd]) ''p''
     = Some (plainError [''p'']
         (''case-insensitive import collision: '' @ exQuote ''D'' @ '' and '' @ exQuote ''d''))"
proof -
  let ?e = depCollisionEnv2
  let ?\<sigma> = "[''p'' \<mapsto> pkgDd]"
  have nofile: "fst (foldDup ?e (sourceFiles (build pkgDd))) = []"
    by (simp add: depCollisionEnv2_def pkgDd_def ex_defs model_defs)
  have "\<exists>\<sigma>1. loadDeps_loop ?e (loadImport 2 ?e) ''p'' pkgDd [''p'']
            (enumerate 0 (importPaths (build pkgDd))) [] ?\<sigma>
          = Some (Inr (Some [(''D'', ''D''), (''d'', ''d'')], \<sigma>1))
        \<and> Error (deref \<sigma>1 ''D'') = None \<and> Error (deref \<sigma>1 ''d'') = None"
    by (simp add: depCollisionEnv2_def pkgDd_def ex_defs model_defs)
  then obtain \<sigma>1 where
    loop: "loadDeps_loop ?e (loadImport 2 ?e) ''p'' pkgDd [''p'']
            (enumerate 0 (importPaths (build pkgDd))) [] ?\<sigma>
          = Some (Inr (Some [(''D'', ''D''), (''d'', ''d'')], \<sigma>1))"
    and clean: "Error (deref \<sigma>1 ''D'') = None" "Error (deref \<sigma>1 ''d'') = None"
    by blast
  have paths: "map fst (sort_key fst [(''D'', ''D''), (''d'', ''d'')]) = [''D'', ''d'']"
    by simp
  have pair: "foldDup ?e [''D'', ''d''] = (''D'', ''d'')"
    and clash: "\<not> distinct (map (toFold ?e) [''D'', ''d''])"
    and q: "fmt_q ?e = exQuote"
    by (simp_all add: depCollisionEnv2_def ex_defs model_defs)
  from C8_dependency_collision_check [OF nofile loop]
  obtain \<sigma>' where
    ret: "loadDeps ?e (loadImport 2 ?e) ''p'' pkgDd [''p''] None ?\<sigma> = Some (Inr \<sigma>')"
    and hit: "list_all (\<lambda>d. Error (deref \<sigma>1 d) = None) (map snd [(''D'', ''D''), (''d'', ''d'')])
            \<and> list_all (\<lambda>s. s \<noteq> []) (map fst [(''D'', ''D''), (''d'', ''d'')])
            \<and> \<not> distinct (map (toFold ?e) (map fst (sort_key fst [(''D'', ''D''), (''d'', ''d'')])))
          \<longrightarrow> Error (deref \<sigma>' ''p'') =
                Some (plainError [''p''] (''case-insensitive import collision: ''
                  @ fmt_q ?e (fst (foldDup ?e (map fst (sort_key fst [(''D'', ''D''), (''d'', ''d'')])))) @ '' and ''
                  @ fmt_q ?e (snd (foldDup ?e (map fst (sort_key fst [(''D'', ''D''), (''d'', ''d'')]))))))"
    by blast
  have "Error (deref \<sigma>' ''p'') =
          Some (plainError [''p''] (''case-insensitive import collision: ''
             @ exQuote ''D'' @ '' and '' @ exQuote ''d''))"
    using hit clean clash unfolding paths pair q by simp
  then show ?thesis
    using ret by (simp add: errorAfter_def)
qed

section \<open>Errors of cached packages across loading\<close>

lemma loadImport_keeps_cycle_error:
  assumes "loadImport n e path srcDir parent stk pos \<sigma> = Some (Inr (r1, \<sigma>1))"
    and "\<sigma> k = Some p" "Error p = Some err" "isImportCycle err"
  shows "\<sigma>1 k = Some p"
proof -
  from loadImport_frame(1) [OF assms(1)] assms(2) obtain p' where
    "\<sigma>1 k = Some p'" "reused p p'"
    by (auto simp: frame_def)
  with reused_cycle_error [OF _ assms(3,4)] show ?thesis by simp
qed

lemma packages_keeps_cycle_error:
  assumes "packages n e args \<sigma> = Some (Inr (rs, \<sigma>1))"
    and "\<sigma> k = Some p" "Error p = Some err" "isImportCycle err"
  shows "\<sigma>1 k = Some p"
proof -
  from packages_frame(1) [OF assms(1)] assms(2) obtain p' where
    "\<sigma>1 k = Some p'" "reused p p'"
    by (auto simp: frame_def)
  with reused_cycle_error [OF _ assms(3,4)] show ?thesis by simp
qed

lemma loadImport_shortens_plain_error:
  assumes "loadImport n e path srcDir parent stk pos \<sigma> = Some (Inr (r1, \<sigma>1))"
    and "\<sigma> k = Some p" "Error p = Some err" "\<not> isImportCycle err"
  shows "\<exists>m. \<sigma>1 k = Some (p\<lparr>Error := Some (err\<lparr>ImportStack := m\<rparr>)\<rparr>)
             \<and> \<not> shorterThan (ImportStack err) m"
proof -
  from loadImport_frame(1) [OF assms(1)] assms(2) obtain stks where
    s: "\<sigma>1 k = Some (foldl reusePackage p stks)"
    by (auto simp: frame_def reused_def)
  from reuse_fold_plain_error [OF assms(3,4), of stks] obtain m where
    "foldl reusePackage p stks = p\<lparr>Error := Some (err\<lparr>ImportStack := m\<rparr>)\<rparr>"
    "list_all (\<lambda>s. \<not> shorterThan s m) (ImportStack err # stks)"
    by blast
  with s show ?thesis by auto
qed

text \<open>
  Claim C5. For a package \<open>p\<close> that carries an error \<open>err\<close>:
  if \<open>err\<close> is not an import cycle, re-encountering \<open>p\<close> with the stack \<open>stk\<close> changes
  nothing but the stored stack, which is replaced by \<open>stk\<close> if and only if \<open>stk\<close> is
  shorter than it; shorter means smaller length or, at equal length, smaller in the
  lexicographic order of the lists of strings, a strict total order; after any run of
  re-encounters the stored stack is the least of the stored stack and the stacks
  encountered. If \<open>err\<close> is an import cycle, re-encounters leave \<open>p\<close> as it is. Across
  a whole call of \<open>loadImport\<close>, or a whole run of \<open>packages\<close>, that returns, a cached
  package with a cycle error is what it was before, and a cached package with
  another error has changed in its stored stack only, which has not grown.
\<close>

theorem C5_reuse_keeps_shortest_stack:
  assumes "Error p = Some err"
  shows "(\<not> isImportCycle err \<longrightarrow>
            reusePackage p stk =
              p\<lparr>Error := Some (err\<lparr>ImportStack :=
                   (if shorterThan stk (ImportStack err) then stk else ImportStack err)\<rparr>)\<rparr>
            \<and> (\<exists>m. foldl reusePackage p stks = p\<lparr>Error := Some (err\<lparr>ImportStack := m\<rparr>)\<rparr>
                   \<and> m \<in> set (ImportStack err # stks)
                   \<and> list_all (\<lambda>s. \<not> shorterThan s m) (ImportStack err # stks)))
         \<and> (isImportCycle err \<longrightarrow>
              reusePackage p stk = p \<and> foldl reusePackage p stks = p)
         \<and> (shorterThan s t \<longleftrightarrow> length s < length t \<or> (length s = length t \<and> s < t))
         \<and> \<not> shorterThan s s
         \<and> (shorterThan s t \<and> shorterThan t u \<longrightarrow> shorterThan s u)
         \<and> (s \<noteq> t \<longrightarrow> shorterThan s t \<or> shorterThan t s)
         \<and> (isImportCycle err \<and> \<sigma> k = Some p
              \<and> loadImport n e path srcDir parent stk0 pos \<sigma> = Some (Inr (r1, \<sigma>1))
              \<longrightarrow> \<sigma>1 k = Some p)
         \<and> (isImportCycle err \<and> \<sigma> k = Some p \<and> packages n e args \<sigma> = Some (Inr (rs, \<tau>))
              \<longrightarrow> \<tau> k = Some p)
         \<and> (\<not> isImportCycle err \<and> \<sigma> k = Some p
              \<and> loadImport n e path srcDir parent stk0 pos \<sigma> = Some (Inr (r1, \<sigma>1))
              \<longrightarrow> (\<exists>m. \<sigma>1 k = Some (p\<lparr>Error := Some (err\<lparr>ImportStack := m\<rparr>)\<rparr>)
                       \<and> \<not> shorterThan (ImportStack err) m))"
proof -
  have local: "(\<not> isImportCycle err \<longrightarrow>
            reusePackage p stk =
              p\<lparr>Error := Some (err\<lparr>ImportStack :=
                   (if shorterThan stk (ImportStack err) then stk else ImportStack err)\<rparr>)\<rparr>
            \<and> (\<exists>m. foldl reusePackage p stks = p\<lparr>Error := Some (err\<lparr>ImportStack := m\<rparr>)\<rparr>
                   \<and> m \<in> set (ImportStack err # stks)
                   \<and> list_all (\<lambda>s. \<not> shorterThan s m) (ImportStack err # stks)))
         \<and> (isImportCycle err \<longrightarrow>
              reusePackage p stk = p \<and> foldl reusePackage p stks = p)"
    using assms reusePackage_plain_error [of p err stk] reusePackage_cycle_error [of p err stk]
      reuse_fold_plain_error [of p err stks] reuse_fold_cycle_error [of p err stks]
    by blast
  have order: "(shorterThan s t \<longleftrightarrow> length s < length t \<or> (length s = length t \<and> s < t))
         \<and> \<not> shorterThan s s
         \<and> (shorterThan s t \<and> shorterThan t u \<longrightarrow> shorterThan s u)
         \<and> (s \<noteq> t \<longrightarrow> shorterThan s t \<or> shorterThan t s)"
    using shorterThan_iff [of s t] shorterThan_irrefl [of s] shorterThan_trans [of s t u]
      shorterThan_total [of s t]
    by blast
  have g1: "isImportCycle err \<and> \<sigma> k = Some p
              \<and> loadImport n e path srcDir parent stk0 pos \<sigma> = Some (Inr (r1, \<sigma>1))
              \<longrightarrow> \<sigma>1 k = Some p"
    using loadImport_keeps_cycle_error assms by blast
  have g2: "isImportCycle err \<and> \<sigma> k = Some p \<and> packages n e args \<sigma> = Some (Inr (rs, \<tau>))
              \<longrightarrow> \<tau> k = Some p"
    using packages_keeps_cycle_error assms by blast
  have g3: "\<not> isImportCycle err \<and> \<sigma> k = Some p
              \<and> loadImport n e path srcDir parent stk0 pos \<sigma> = Some (Inr (r1, \<sigma>1))
              \<longrightarrow> (\<exists>m. \<sigma>1 k = Some (p\<lparr>Error := Some (err\<lparr>ImportStack := m\<rparr>)\<rparr>)
                       \<and> \<not> shorterThan (ImportStack err) m)"
    using loadImport_shortens_plain_error assms by blast
  from local order g1 g2 g3 show ?thesis by blast
qed

text \<open>
  A shorter stack replaces the stored one, a longer one does not, and a cycle error
  stays, under \<open>reusePackage\<close> and across a run of \<open>packages\<close> that meets the package
  again.
\<close>

theorem C5_reuse_keeps_shortest_stack_witness:
  "reusePackage (exFailed (plainError [''p'', ''q'', ''d''] ''cannot find package'')) [''p'', ''d'']
     = exFailed (plainError [''p'', ''d''] ''cannot find package'')
   \<and> reusePackage (exFailed (plainError [''p'', ''d''] ''cannot find package'')) [''p'', ''q'', ''d'']
     = exFailed (plainError [''p'', ''d''] ''cannot find package'')
   \<and> reusePackage (exFailed (cycleError [''p'', ''q'', ''d''])) [''p'', ''d'']
     = exFailed (cycleError [''p'', ''q'', ''d''])
   \<and> cacheOf (packages 1 diamondEnv [''d''] [''d'' \<mapsto> exFailed (cycleError [''p'', ''q'', ''d''])]) ''d''
     = Some (exFailed (cycleError [''p'', ''q'', ''d'']))"
proof -
  let ?long = "plainError [''p'', ''q'', ''d''] ''cannot find package''"
  let ?short = "plainError [''p'', ''d''] ''cannot find package''"
  let ?cyc = "cycleError [''p'', ''q'', ''d'']"
  have e1: "Error (exFailed ?long) = Some ?long" by (simp add: exFailed_def)
  have e2: "Error (exFailed ?short) = Some ?short" by (simp add: exFailed_def)
  have e3: "Error (exFailed ?cyc) = Some ?cyc" by (simp add: exFailed_def)
  have n1: "\<not> isImportCycle ?long" and n2: "\<not> isImportCycle ?short" and c3: "isImportCycle ?cyc"
    by (simp_all add: plainError_def cycleError_def)
  have s1: "shorterThan [''p'', ''d''] (ImportStack ?long)"
    and s2: "\<not> shorterThan [''p'', ''q'', ''d''] (ImportStack ?short)"
    by (simp_all add: plainError_def shorterThan_def)
  from C5_reuse_keeps_shortest_stack [OF e1, where stk = "[''p'', ''d'']"] n1
  have "reusePackage (exFailed ?long) [''p'', ''d''] =
          (exFailed ?long)\<lparr>Error := Some (?long\<lparr>ImportStack :=
             (if shorterThan [''p'', ''d''] (ImportStack ?long) then [''p'', ''d'']
              else ImportStack ?long)\<rparr>)\<rparr>"
    by blast
  then have r1: "reusePackage (exFailed ?long) [''p'', ''d''] = exFailed ?short"
    unfolding if_P [OF s1] by (simp add: exFailed_def plainError_def)
  from C5_reuse_keeps_shortest_stack [OF e2, where stk = "[''p'', ''q'', ''d'']"] n2
  have "reusePackage (exFailed ?short) [''p'', ''q'', ''d''] =
          (exFailed ?short)\<lparr>Error := Some (?short\<lparr>ImportStack :=
             (if shorterThan [''p'', ''q'', ''d''] (ImportStack ?short) then [''p'', ''q'', ''d'']
              else ImportStack ?short)\<rparr>)\<rparr>"
    by blast
  then have r2: "reusePackage (exFailed ?short) [''p'', ''q'', ''d''] = exFailed ?short"
    unfolding if_not_P [OF s2] by (simp add: exFailed_def plainError_def)
  from C5_reuse_keeps_shortest_stack [OF e3, where stk = "[''p'', ''d'']"] c3
  have r3: "reusePackage (exFailed ?cyc) [''p'', ''d''] = exFailed ?cyc"
    by blast
  let ?\<sigma> = "[''d'' \<mapsto> exFailed ?cyc]"
  have "\<exists>rs \<sigma>2. packages 1 diamondEnv [''d''] ?\<sigma> = Some (Inr (rs, \<sigma>2))"
    by (simp add: packages_def loadPackage_def IsLocalImport_def vendoredImportPath_def Let_def)
  then obtain rs \<sigma>2 where run: "packages 1 diamondEnv [''d''] ?\<sigma> = Some (Inr (rs, \<sigma>2))"
    by blast
  have "?\<sigma> ''d'' = Some (exFailed ?cyc)" by simp
  with C5_reuse_keeps_shortest_stack [OF e3, where \<sigma> = ?\<sigma> and k = "''d''" and n = 1
      and e = diamondEnv and args = "[''d'']" and rs = rs and \<tau> = \<sigma>2] c3 run
  have "\<sigma>2 ''d'' = Some (exFailed ?cyc)" by blast
  then have r4: "cacheOf (packages 1 diamondEnv [''d''] ?\<sigma>) ''d'' = Some (exFailed ?cyc)"
    using run by (simp add: cacheOf_def)
  from r1 r2 r3 r4 show ?thesis by blast
qed

section \<open>The recursion budget\<close>

text \<open>
  A result obtained within some recursion budget is the result for every larger
  budget: the budget only decides whether the model gets to the end of a run.
\<close>

lemma loadDeps_loop_mono:
  assumes "extends ld ld'"
    and "loadDeps_loop e ld r p stk xs dps \<sigma> = Some y"
  shows "loadDeps_loop e ld' r p stk xs dps \<sigma> = Some y"
  using assms(2)
proof (induction xs arbitrary: dps \<sigma>)
  case Nil
  then show ?case by simp
next
  case (Cons x xs)
  obtain i path where x: "x = (i, path)" by (cases x)
  consider (c) "path = ''C''" | (l) "path \<noteq> ''C''" "IsLocalImport path"
    | (g) "path \<noteq> ''C''" "\<not> IsLocalImport path" by blast
  then show ?case
  proof cases
    case c
    with Cons show ?thesis using x by simp
  next
    case l
    with Cons.prems show ?thesis using x by simp
  next
    case g
    let ?call = "ld path (Dir (build p)) (Some p) stk (ImportPos (build p) path) \<sigma>"
    let ?call' = "ld' path (Dir (build p)) (Some p) stk (ImportPos (build p) path) \<sigma>"
    from Cons.prems x g obtain z where z: "?call = Some z"
      by (auto split: option.splits)
    with assms(1) have z': "?call' = Some z" by (simp add: extends_def)
    show ?thesis
    proof (cases z)
      case (Inl a)
      with Cons.prems x g z z' show ?thesis by simp
    next
      case (Inr b)
      obtain r1 \<sigma>1 where b: "b = (r1, \<sigma>1)" by (cases b)
      have "loadDeps_loop e ld r p stk xs
              (mergeDeps (recordImport e r p stk i path r1 \<sigma>1) r1 dps)
              (recordImport e r p stk i path r1 \<sigma>1) = Some y"
        using Cons.prems x g z Inr b by simp
      from Cons.IH [OF this] show ?thesis
        using x g z' Inr b by simp
    qed
  qed
qed

lemma loadDeps_mono:
  assumes "extends ld ld'"
    and "loadDeps e ld r p stk err \<sigma> = Some y"
  shows "loadDeps e ld' r p stk err \<sigma> = Some y"
proof (cases "err = None \<and> fst (foldDup e (sourceFiles (build p))) = []")
  case False
  then have "loadDeps e ld' r p stk err \<sigma> = loadDeps e ld r p stk err \<sigma>"
    by (auto simp: loadDeps_def split_beta split: option.splits)
  with assms(2) show ?thesis by simp
next
  case True
  let ?loop = "\<lambda>l. loadDeps_loop e l r p stk (enumerate 0 (importPaths (build p))) [] \<sigma>"
  from assms(2) True obtain z where z: "?loop ld = Some z"
    by (auto simp: loadDeps_def split_beta split: option.splits)
  from loadDeps_loop_mono [OF assms(1) this] have "?loop ld' = Some z" .
  with z assms(2) True show ?thesis
    by (simp add: loadDeps_def split_beta)
qed

lemma loadImport_mono_step: "extends (loadImport n e) (loadImport (Suc n) e)"
proof (induction n)
  case 0
  show ?case by (simp add: extends_def)
next
  case (Suc n)
  show ?case
    unfolding extends_def
  proof (intro allI impI)
    fix path srcDir parent stk pos \<sigma> y
    assume run: "loadImport (Suc n) e path srcDir parent stk pos \<sigma> = Some y"
    show "loadImport (Suc (Suc n)) e path srcDir parent stk pos \<sigma> = Some y"
    proof (cases "vendoredImportPath e parent path")
      case (Inl a)
      with run show ?thesis by simp
    next
      case (Inr b)
      obtain ip vs where b: "b = (ip, vs)" by (cases b)
      show ?thesis
      proof (cases "\<sigma> ip")
        case (Some q)
        with run Inr b show ?thesis by simp
      next
        case None
        obtain q err where q: "importPackage e ip vs srcDir = (q, err)" by force
        show ?thesis
        proof (cases "Standard q")
          case True
          with run Inr b None q show ?thesis by simp
        next
          case False
          let ?ld = "\<lambda>m. loadDeps e (loadImport m e) ip q (stk @ [path]) err (\<sigma>(ip \<mapsto> q))"
          from run Inr b None q False obtain z where z: "?ld n = Some z"
            by (auto split: option.splits)
          from loadDeps_mono [OF Suc.IH this] have "?ld (Suc n) = Some z" .
          with z run Inr b None q False show ?thesis by simp
        qed
      qed
    qed
  qed
qed

lemma loadImport_mono:
  assumes "loadImport n e path srcDir parent stk pos \<sigma> = Some y"
  shows "loadImport (n + k) e path srcDir parent stk pos \<sigma> = Some y"
proof (induction k)
  case 0
  with assms show ?case by simp
next
  case (Suc k)
  with loadImport_mono_step [of "n + k" e] show ?case
    by (simp add: extends_def)
qed

end
